theory Spec2Isabelle
  imports Main "HOL-Library.Word" "HOL-Library.Multiset" "HOL-Library.Code_Target_Numeral"
begin

unbundle bit_operations_syntax

section \<open>Status codes and machine integers\<close>

text \<open>
  The encoder reports \<open>RET_OK\<close> or \<open>RET_ERROR\<close>. A run of the C++ code that reads or
  writes outside an array, or shifts by a negative amount, has no defined result; the
  model makes such a run the value \<open>UNDEFINED\<close>, so that it is a branch like any other.
\<close>

datatype error = RET_ERROR | UNDEFINED

text \<open>Conversions to the fixed-width integer types, written out on \<open>int\<close> and \<open>nat\<close>.\<close>

definition to_uint16 :: "int \<Rightarrow> nat" where
  "to_uint16 x = nat (x mod 2 ^ 16)"

definition to_uint32 :: "int \<Rightarrow> nat" where
  "to_uint32 x = nat (x mod 2 ^ 32)"

definition to_int16 :: "int \<Rightarrow> int" where
  "to_int16 x = (x + 2 ^ 15) mod 2 ^ 16 - 2 ^ 15"

definition to_int32 :: "int \<Rightarrow> int" where
  "to_int32 x = (x + 2 ^ 31) mod 2 ^ 32 - 2 ^ 31"

section \<open>Constants and helpers declared outside the encoder's source file\<close>

text \<open>
  Modelled from the spec: \<open>k16Bit\<close> is declared in a header that is not among the
  sources; the spec writes the shifts that use it as shifts by 16.
\<close>

definition k16Bit :: nat where
  "k16Bit = 16"

text \<open>
  Modelled from the spec: \<open>FSEBitStream::CountBits\<close> is defined in the bit stream's
  source file, which is not among the sources. The spec: it returns the bit-length of
  an unsigned integer, and 0 for 0.
\<close>

fun CountBits :: "nat \<Rightarrow> nat" where
  "CountBits x = (if x = 0 then 0 else Suc (CountBits (x div 2)))"

declare CountBits.simps [simp del]

text \<open>The constants of the encoder's own source file.\<close>

definition kFseTableExtendSize :: nat where
  "kFseTableExtendSize = 3"

definition kFrenqTableExtendSize :: nat where
  "kFrenqTableExtendSize = 2"

definition kAlignSize :: nat where
  "kAlignSize = 8"

section \<open>The spread of the symbols over the state table\<close>

text \<open>
  \<open>while (pos > tablemask) pos = (pos + step) & tablemask;\<close>
\<close>

function spread_while :: "nat \<Rightarrow> nat \<Rightarrow> nat \<Rightarrow> nat" where
  "spread_while step tablemask pos =
     (if pos > tablemask then spread_while step tablemask ((pos + step) AND tablemask)
      else pos)"
  by pat_completeness auto

termination
proof (relation "measure (\<lambda>(step, tablemask, pos). if pos > tablemask then 1 else 0)")
  fix step tablemask pos :: nat
  assume "tablemask < pos"
  have "int (pos + step) AND int tablemask \<le> int tablemask" by (rule AND_upper2) simp
  then have "int ((pos + step) AND tablemask) \<le> int tablemask" by (simp add: of_nat_and_eq)
  then have "(pos + step) AND tablemask \<le> tablemask" by simp
  with \<open>tablemask < pos\<close>
  show "((step, tablemask, (pos + step) AND tablemask), (step, tablemask, pos))
          \<in> measure (\<lambda>(step, tablemask, pos). if pos > tablemask then 1 else 0)"
    by simp
qed simp

declare spread_while.simps [simp del]

text \<open>
  The state of the placement loops: the symbol table being filled and the writer
  position. \<open>written\<close> is a ghost field, not in the C++ code: it logs the slot of every
  store \<open>symbol_table[pos] = sym\<close>, in the order of the stores.
\<close>

record spread_state =
  slots :: "nat list"
  pos :: nat
  written :: "nat list"

text \<open>
  The inner loop \<open>for (uint32_t i = 0; i < frequency[sym]; i++)\<close>; the third argument
  is the number of iterations left. The stored symbol is narrowed to \<open>uint16_t\<close>.
\<close>

fun spread_symbol :: "nat \<Rightarrow> nat \<Rightarrow> nat \<Rightarrow> nat \<Rightarrow> spread_state \<Rightarrow> spread_state" where
  "spread_symbol step tablemask symb 0 s = s"
| "spread_symbol step tablemask symb (Suc n) s =
     spread_symbol step tablemask symb n
       \<lparr>slots = (slots s)[pos s := to_uint16 (int symb)],
        pos = spread_while step tablemask ((pos s + step) AND tablemask),
        written = written s @ [pos s]\<rparr>"

text \<open>
  The outer loop \<open>for (int sym = 0; sym < frequency_count; sym++)\<close>, over the
  frequencies still to be placed.
\<close>

fun spread_symbols :: "nat \<Rightarrow> nat \<Rightarrow> nat \<Rightarrow> nat list \<Rightarrow> spread_state \<Rightarrow> spread_state" where
  "spread_symbols step tablemask symb [] s = s"
| "spread_symbols step tablemask symb (f # fs) s =
     spread_symbols step tablemask (Suc symb) fs (spread_symbol step tablemask symb f s)"

text \<open>
  Lines 48 to 59 of the encoder: table size, mask and stride, then the placement into
  a table of \<open>tablesize\<close> zero-filled slots (the vector that \<open>FSEEncode\<close> passes).
\<close>

definition spread :: "nat list \<Rightarrow> nat \<Rightarrow> nat \<Rightarrow> spread_state" where
  "spread frequency frequency_count table_log =
     (let tablesize = (2 :: nat) ^ table_log;
          tablemask = tablesize - 1;
          step = tablesize div 2 + tablesize div 2 ^ kFseTableExtendSize + kFseTableExtendSize
      in spread_symbols step tablemask 0 (take frequency_count frequency)
           \<lparr>slots = replicate tablesize 0, pos = 0, written = []\<rparr>)"

section \<open>The coding table and the per-symbol deltas\<close>

text \<open>
  The cumulative frequencies \<open>cfreqs\<close>: \<open>cfreqs[0] = 0\<close>,
  \<open>cfreqs[i] = cfreqs[i - 1] + frequency[i - 1]\<close> and one more entry
  \<open>cfreqs[frequency_count + 1] = cfreqs[frequency_count] + 1\<close>, in \<open>uint32_t\<close>. The first
  argument is the running value \<open>cfreqs[i - 1]\<close>.
\<close>

fun cfreqs_fill :: "nat \<Rightarrow> nat list \<Rightarrow> nat list" where
  "cfreqs_fill c [] = [c, to_uint32 (int c + 1)]"
| "cfreqs_fill c (f # fs) = c # cfreqs_fill (to_uint32 (int c + int f)) fs"

text \<open>
  The loop \<open>for (size_t i = 0; i < tablesize; i++)\<close> over the slots of the symbol table
  (second argument: the slots from \<open>i\<close> on). An index outside \<open>cfreqs\<close> or outside the
  coding table is undefined behaviour: \<open>None\<close>. The stored state \<open>tablesize + i\<close> is
  narrowed to \<open>uint16_t\<close>.
\<close>

fun coding_loop ::
  "nat \<Rightarrow> nat list \<Rightarrow> nat \<Rightarrow> nat list \<times> nat list \<Rightarrow> (nat list \<times> nat list) option" where
  "coding_loop tablesize [] i (cfreqs, coding_table) = Some (cfreqs, coding_table)"
| "coding_loop tablesize (symb # rest) i (cfreqs, coding_table) =
     (if symb < length cfreqs \<and> cfreqs ! symb < length coding_table
      then coding_loop tablesize rest (Suc i)
             (cfreqs[symb := to_uint32 (int (cfreqs ! symb) + 1)],
              coding_table[cfreqs ! symb := to_uint16 (int tablesize + int i)])
      else None)"

text \<open>A signed 32-bit result; signed overflow is undefined behaviour: \<open>None\<close>.\<close>

definition int32_checked :: "int \<Rightarrow> int option" where
  "int32_checked x = (if - (2 ^ 31) \<le> x \<and> x < 2 ^ 31 then Some x else None)"

text \<open>
  The loop of lines 77 to 90, over the frequencies from symbol \<open>symb\<close> on, with the running
  \<open>total\<close> (\<open>tot\<close>). In the first branch \<open>max_bits_out\<close> is
  \<open>table_log - CountBits(frequency[sym] - 1)\<close>; a negative value makes the shift
  \<open>frequency[sym] << max_bits_out\<close> undefined. \<open>min_state_plus\<close> is the \<open>uint32_t\<close> shift
  converted to \<open>int\<close>, the difference is computed in \<open>size_t\<close> and stored as
  \<open>uint32_t\<close>; \<open>delta_state\<close> is stored as \<open>int16_t\<close>.
\<close>

fun delta_loop ::
  "nat \<Rightarrow> nat \<Rightarrow> nat list \<Rightarrow> int \<Rightarrow> nat list \<times> int list \<Rightarrow> (nat list \<times> int list) option" where
  "delta_loop table_log symb [] tot (delta_bit_count, delta_state) =
     Some (delta_bit_count, delta_state)"
| "delta_loop table_log symb (f # fs) tot (delta_bit_count, delta_state) =
     (if f \<ge> kFrenqTableExtendSize then
        (if table_log < CountBits (f - 1) then None
         else
           let max_bits_out = table_log - CountBits (f - 1);
               min_state_plus = to_int32 (int (to_uint32 (int f * 2 ^ max_bits_out)))
           in (case (int32_checked (tot - to_int32 (int f)),
                     int32_checked (tot + to_int32 (int f))) of
                 (Some d, Some tot') \<Rightarrow>
                   delta_loop table_log (Suc symb) fs tot'
                     (delta_bit_count[symb :=
                        to_uint32 (int max_bits_out * 2 ^ k16Bit - min_state_plus)],
                      delta_state[symb := to_int16 d])
               | _ \<Rightarrow> None))
      else
        (case (int32_checked (tot - 1), int32_checked (tot + 1)) of
           (Some d, Some tot') \<Rightarrow>
             delta_loop table_log (Suc symb) fs tot'
               (delta_bit_count[symb :=
                  to_uint32 (int table_log * 2 ^ k16Bit - 2 ^ table_log)],
                delta_state[symb := to_int16 d])
         | _ \<Rightarrow> None))"

text \<open>
  The four tables that \<open>FSECreateStatesForEncoding\<close> fills. \<open>FSEEncode\<close>, its caller,
  passes zero-filled vectors: \<open>frequency_count\<close> entries for the two delta tables and
  \<open>table_size\<close> entries for the coding table and the symbol table (\<open>symtable\<close> there).
\<close>

record encoding_tables =
  delta_bit_count :: "nat list"
  delta_state :: "int list"
  coding_table :: "nat list"
  symtable :: "nat list"

text \<open>
  \<open>FSECreateStatesForEncoding\<close>. The shift \<open>1 << table_log\<close> is an \<open>int\<close> shift, defined
  up to \<open>table_log = 30\<close>; reading \<open>frequency\<close> beyond its end is undefined as well.
\<close>

definition FSECreateStatesForEncoding ::
  "nat list \<Rightarrow> nat \<Rightarrow> nat \<Rightarrow> error + encoding_tables" where
  "FSECreateStatesForEncoding frequency frequency_count table_log =
     (if table_log > 30 \<or> frequency_count > length frequency then Inl UNDEFINED
      else
        let tablesize = (2 :: nat) ^ table_log;
            sp = spread frequency frequency_count table_log
        in if pos sp \<noteq> 0 then Inl RET_ERROR
           else
             (case coding_loop tablesize (slots sp) 0
                     (cfreqs_fill 0 (take frequency_count frequency), replicate tablesize 0) of
                None \<Rightarrow> Inl UNDEFINED
              | Some (cfreqs, ct) \<Rightarrow>
                  (case delta_loop table_log 0 (take frequency_count frequency) 0
                          (replicate frequency_count 0, replicate frequency_count 0) of
                     None \<Rightarrow> Inl UNDEFINED
                   | Some (dbc, ds) \<Rightarrow>
                       Inr \<lparr>delta_bit_count = dbc, delta_state = ds, coding_table = ct,
                            symtable = slots sp\<rparr>)))"






section \<open>Normalizing the frequencies\<close>

text \<open>
  Modelled from the spec: \<open>struct FSEQuant\<close> is declared in the encoder's header, which
  is not among the sources. Its fields are the ones the encoder reads: the symbol
  sequence and its length, the centroid table (single-precision values, kept as their
  32-bit patterns), the frequency table (\<open>uint32_t\<close> entries) and the alphabet size
  \<open>size\<close> (here \<open>q_size\<close>).
\<close>

record FSEQuant =
  symbol_table :: "nat list"
  symbol_table_count :: nat
  centroids :: "32 word list"
  frequency :: "nat list"
  q_size :: nat

text \<open>
  The value of a \<open>uint32_t\<close> converted to \<open>float\<close> (24 significant bits, round to
  nearest, ties to even): below \<open>2 ^ 24\<close> the conversion is exact.
\<close>

definition float_of_uint32 :: "nat \<Rightarrow> nat" where
  "float_of_uint32 x =
     (if x < 2 ^ 24 then x
      else
        let e = CountBits x - 24; q = x div 2 ^ e; r = x mod 2 ^ e
        in (if 2 * r > 2 ^ e \<or> (2 * r = 2 ^ e \<and> odd q) then q + 1 else q) * 2 ^ e)"

text \<open>
  \<open>GetMaxIndex\<close>: the loop over \<open>arr\<close> from index \<open>i\<close> on, with the \<open>float max\<close>
  (\<open>None\<close> is \<open>-INFINITY\<close>, below every value) and the \<open>index\<close> found so far.
\<close>

fun GetMaxIndex_loop :: "nat list \<Rightarrow> nat \<Rightarrow> nat option \<Rightarrow> int \<Rightarrow> int" where
  "GetMaxIndex_loop [] i mx index = index"
| "GetMaxIndex_loop (a # arr) i mx index =
     (if (case mx of None \<Rightarrow> True | Some m \<Rightarrow> float_of_uint32 a > m)
      then GetMaxIndex_loop arr (Suc i) (Some (float_of_uint32 a)) (int i)
      else GetMaxIndex_loop arr (Suc i) mx index)"

definition GetMaxIndex :: "nat list \<Rightarrow> nat \<Rightarrow> int" where
  "GetMaxIndex arr arr_count = GetMaxIndex_loop (take arr_count arr) 0 None (- 1)"

text \<open>
  The sums \<open>curr_table_size\<close> and \<open>updated_table_size\<close>: an \<open>int\<close> accumulator to which
  \<open>uint32_t\<close> entries are added; the addition is done in \<open>unsigned\<close> and converted back.
\<close>

definition int_sum :: "nat list \<Rightarrow> int" where
  "int_sum fs = fold (\<lambda>f c. to_int32 (c + int f)) fs 0"

text \<open>
  The shrink loop \<open>while (updated_table_size > new_table_size)\<close>. The decrement of the
  \<open>uint32_t\<close> entry wraps at 0.
\<close>

function shrink :: "nat \<Rightarrow> nat \<Rightarrow> int \<Rightarrow> nat list \<times> int \<Rightarrow> error + (nat list \<times> int)" where
  "shrink MAX_SYMS sz new_table_size (freq, updated_table_size) =
     (if updated_table_size > new_table_size then
        let max_ix = GetMaxIndex freq sz
        in if max_ix < 0 \<or> max_ix > int MAX_SYMS then Inl RET_ERROR
           else shrink MAX_SYMS sz new_table_size
                  (freq[nat max_ix := to_uint32 (int (freq ! nat max_ix) - 1)],
                   updated_table_size - 1)
      else Inr (freq, updated_table_size))"
  by pat_completeness auto
termination
  by (relation "measure (\<lambda>(MAX_SYMS, sz, new_table_size, freq, updated_table_size).
                  nat (updated_table_size - new_table_size))") auto

declare shrink.simps [simp del]

text \<open>
  The grow step. The deficit \<open>new_table_size - updated_table_size\<close> is an \<open>int\<close>
  (overflow is undefined), added to the \<open>uint32_t\<close> entry.
\<close>

definition grow :: "nat \<Rightarrow> nat \<Rightarrow> int \<Rightarrow> nat list \<times> int \<Rightarrow> error + nat list" where
  "grow MAX_SYMS sz new_table_size fu =
     (case fu of (freq, updated_table_size) \<Rightarrow>
        if updated_table_size < new_table_size then
          let max_ix = GetMaxIndex freq sz
          in if max_ix < 0 \<or> max_ix \<ge> int MAX_SYMS then Inl RET_ERROR
             else
               (case int32_checked (new_table_size - updated_table_size) of
                  None \<Rightarrow> Inl UNDEFINED
                | Some deficit \<Rightarrow>
                    Inr (freq[nat max_ix := to_uint32 (int (freq ! nat max_ix) + deficit)]))
        else Inr freq)"

text \<open>
  The rescaling loop: every entry becomes \<open>std::max(1, rescale ...)\<close>, stored as
  \<open>uint32_t\<close>. The parameter \<open>rescale\<close> is explained below.
\<close>

definition rescaled :: "(int \<Rightarrow> int \<Rightarrow> nat \<Rightarrow> int) \<Rightarrow> int \<Rightarrow> nat list \<Rightarrow> nat list" where
  "rescaled rescale new_table_size fs =
     map (\<lambda>f. to_uint32 (max 1 (to_int32 (rescale new_table_size (int_sum fs) f)))) fs"

text \<open>
  \<open>NormalizeFrequency\<close>. Three things it uses are parameters:
  \<^item> \<open>rescale new_table_size curr_table_size f\<close> stands for the value of
    \<open>floorf(kUpRoundOffSet + rat * f)\<close> with \<open>rat = (float)new_table_size / curr_table_size\<close>:
    a single-precision computation, whose result the code casts to \<open>int\<close> (\<open>to_int32\<close>
    in \<open>rescaled\<close>) and only uses through \<open>std::max(1, ...)\<close>;
  \<^item> \<open>MAX_TABLE_LOG\<close> and \<open>MAX_SYMS\<close>, constants of the header that is not among the
    sources.
  The result is the updated \<open>FSEQuant\<close> and \<open>*table_log\<close>. Reading \<open>frequency\<close> beyond
  its end and the shift \<open>1 << table_log\<close> beyond 30 are undefined.
\<close>

definition NormalizeFrequency ::
  "(int \<Rightarrow> int \<Rightarrow> nat \<Rightarrow> int) \<Rightarrow> nat \<Rightarrow> nat \<Rightarrow> FSEQuant \<Rightarrow> error + (FSEQuant \<times> nat)" where
  "NormalizeFrequency rescale MAX_TABLE_LOG MAX_SYMS q =
     (let table_log = min MAX_TABLE_LOG (CountBits (q_size q) + kFseTableExtendSize)
      in if q_size q > length (frequency q) \<or> table_log > 30 then Inl UNDEFINED
         else
           let new_table_size = 2 ^ table_log;
               curr_table_size = int_sum (take (q_size q) (frequency q))
           in if curr_table_size = 0 then Inl RET_ERROR
              else
                let scaled = rescaled rescale new_table_size (take (q_size q) (frequency q));
                    freq = scaled @ drop (q_size q) (frequency q);
                    updated_table_size = int_sum scaled
                in (case shrink MAX_SYMS (q_size q) new_table_size (freq, updated_table_size) of
                      Inl e \<Rightarrow> Inl e
                    | Inr fu \<Rightarrow>
                        (case grow MAX_SYMS (q_size q) new_table_size fu of
                           Inl e \<Rightarrow> Inl e
                         | Inr freq' \<Rightarrow> Inr (q\<lparr>frequency := freq'\<rparr>, table_log))))"

text \<open>
  The rescaling in exact arithmetic, \<open>floor (1/2 + new_table_size * f / curr_table_size)\<close>:
  one admissible value of the parameter \<open>rescale\<close>, used for the examples.
\<close>

definition exact_rescale :: "int \<Rightarrow> int \<Rightarrow> nat \<Rightarrow> int" where
  "exact_rescale new_table_size curr_table_size f =
     (2 * new_table_size * int f + curr_table_size) div (2 * curr_table_size)"

text \<open>
  The adjustment as the specification words it: the first index that holds the maximum,
  the repeated decrement of that entry while the sum exceeds the target, and the single
  addition of the whole deficit.
\<close>

fun first_index_of :: "nat \<Rightarrow> nat list \<Rightarrow> nat" where
  "first_index_of v [] = 0"
| "first_index_of v (x # xs) = (if x = v then 0 else Suc (first_index_of v xs))"

definition first_max_index :: "nat list \<Rightarrow> nat" where
  "first_max_index xs = first_index_of (Max (set xs)) xs"

definition dec_first_max :: "nat list \<Rightarrow> nat list" where
  "dec_first_max xs = xs[first_max_index xs := xs ! first_max_index xs - 1]"

definition spec_shrink :: "nat \<Rightarrow> nat list \<Rightarrow> nat list" where
  "spec_shrink target xs = (dec_first_max ^^ (sum_list xs - target)) xs"

definition spec_grow :: "nat \<Rightarrow> nat list \<Rightarrow> nat list" where
  "spec_grow target xs =
     (if sum_list xs < target
      then xs[first_max_index xs := xs ! first_max_index xs + (target - sum_list xs)]
      else xs)"

section \<open>Serializing to the output buffer\<close>

text \<open>
  Modelled from the spec: \<open>class FSEBitStream\<close> is declared in a header that is not among
  the sources. The serializer reads it through four accessors, which are the fields
  here: the committed chunks (\<open>GetChunks\<close>), the partially filled chunk
  (\<open>GetCurrChunk\<close>), the index of the last committed chunk (\<open>GetCurrChunkIndex\<close>, -1
  when there is none) and the number of bits in the partial chunk (\<open>GetCurrBitCount\<close>).
\<close>

record FSEBitStream =
  chunks :: "64 word list"
  curr_chunk :: "64 word"
  curr_chunk_index :: int
  curr_bit_count :: int

type_synonym byte = "8 word"

text \<open>
  The bytes of an unsigned value of \<open>n\<close> bytes, least significant byte first: the stores
  through \<open>reinterpret_cast\<close> on a little-endian machine, the byte order the
  specification fixes for the layout.
\<close>

definition le_bytes :: "nat \<Rightarrow> nat \<Rightarrow> byte list" where
  "le_bytes n v = map (\<lambda>i. word_of_nat (v div 256 ^ i)) [0..<n]"

text \<open>
  The state of the serializer: the caller's buffer \<open>out8\<close> (as many bytes as were
  allocated), the local \<open>offset\<close>, and the caller's \<open>*out_size\<close>. A step returns the
  status, \<open>None\<close> for "go on" or \<open>RET_OK\<close>, and the state it leaves.
\<close>

record ser =
  out8 :: "byte list"
  offset :: nat
  out_size :: nat

text \<open>
  A store of the bytes \<open>bs\<close> at \<open>offset\<close>, followed by \<open>offset += sizeof(...)\<close>. A store
  that reaches beyond the allocated buffer is undefined behaviour.
\<close>

definition store :: "byte list \<Rightarrow> ser \<Rightarrow> error option \<times> ser" where
  "store bs s =
     (if offset s + length bs > length (out8 s) then (Some UNDEFINED, s)
      else (None, s\<lparr>out8 := take (offset s) (out8 s) @ bs
                              @ drop (offset s + length bs) (out8 s),
                     offset := offset s + length bs\<rparr>))"

text \<open>
  The pattern before every store but the first:
  \<open>if (offset + sizeof(T) > max_size) return RET_ERROR;\<close> and then the store. The value
  is \<open>None\<close> when the code reads it from beyond the end of its array, which is undefined
  as well.
\<close>

definition checked_store :: "nat \<Rightarrow> nat \<Rightarrow> byte list option \<Rightarrow> ser \<Rightarrow> error option \<times> ser" where
  "checked_store max_size n v s =
     (if offset s + n > max_size then (Some RET_ERROR, s)
      else (case v of None \<Rightarrow> (Some UNDEFINED, s) | Some bs \<Rightarrow> store bs s))"

text \<open>A \<open>for\<close> loop of checked stores, one per value.\<close>

fun store_all :: "nat \<Rightarrow> nat \<Rightarrow> byte list option list \<Rightarrow> ser \<Rightarrow> error option \<times> ser" where
  "store_all max_size n [] s = (None, s)"
| "store_all max_size n (v # vs) s =
     (case checked_store max_size n v s of
        (None, s') \<Rightarrow> store_all max_size n vs s'
      | r \<Rightarrow> r)"

text \<open>
  The padding loop \<open>while (offset % kAlignSize != 0)\<close>, which stores \<open>(uint16_t)0\<close>. Every
  iteration either returns or moves the offset by two bytes towards \<open>max_size\<close>.
\<close>

function pad :: "nat \<Rightarrow> ser \<Rightarrow> error option \<times> ser" where
  "pad max_size s =
     (if offset s mod kAlignSize \<noteq> 0 then
        (if offset s + 2 > max_size then (Some RET_ERROR, s)
         else (case store (le_bytes 2 0) s of
                 (None, s') \<Rightarrow> pad max_size s'
               | r \<Rightarrow> r))
      else (None, s))"
  by pat_completeness auto
termination
  apply (relation "measure (\<lambda>(max_size, s). max_size + 2 - offset s)")
   apply simp
  apply (auto simp: store_def le_bytes_def split: if_splits)
  done

declare pad.simps [simp del]

text \<open>An element read from an array: \<open>None\<close> beyond its end.\<close>

definition read_at :: "'a list \<Rightarrow> nat \<Rightarrow> 'a option" where
  "read_at xs j = (if j < length xs then Some (xs ! j) else None)"

text \<open>The end of the function: the last check, \<open>*out_size = offset\<close> and \<open>RET_OK\<close>.\<close>

definition set_out_size :: "nat \<Rightarrow> ser \<Rightarrow> error option \<times> ser" where
  "set_out_size max_size s =
     (if offset s > max_size then (Some RET_ERROR, s)
      else (None, s\<lparr>out_size := offset s\<rparr>))"

text \<open>The statements of a function in order, up to the first that returns.\<close>

fun in_order :: "(ser \<Rightarrow> error option \<times> ser) list \<Rightarrow> ser \<Rightarrow> error option \<times> ser" where
  "in_order [] s = (None, s)"
| "in_order (f # fs) s = (case f s of (None, s') \<Rightarrow> in_order fs s' | r \<Rightarrow> r)"

text \<open>
  \<open>SerializingToBuffer\<close>, on the buffer and the \<open>*out_size\<close> of the state \<open>s\<close>; the status
  \<open>None\<close> of the result is \<open>RET_OK\<close>. The conversions are the casts of the code:
  \<open>(uint16_t)fse_quant.size\<close>, \<open>(uint16_t)table_log\<close>, \<open>(uint32_t)chunksc\<close> with
  \<open>chunksc = GetCurrChunkIndex() + sizeof(uint16_t)\<close>, and \<open>(uint8_t)GetCurrBitCount()\<close>.
  The chunk loop runs for \<open>j < GetCurrChunkIndex() + 1\<close>.
\<close>

definition SerializingToBuffer ::
  "FSEBitStream \<Rightarrow> FSEQuant \<Rightarrow> nat \<Rightarrow> nat \<Rightarrow> ser \<Rightarrow> error option \<times> ser" where
  "SerializingToBuffer bs fse_quant table_log max_size s =
     in_order
       [store (le_bytes 2 (to_uint16 (int (q_size fse_quant)))),
        checked_store max_size 2 (Some (le_bytes 2 (to_uint16 (int table_log)))),
        checked_store max_size 4
          (Some (le_bytes 4 (to_uint32 (curr_chunk_index bs + 2)))),
        store_all max_size 4
          (map (\<lambda>j. map_option (le_bytes 4) (read_at (frequency fse_quant) j))
               [0..<q_size fse_quant]),
        pad max_size,
        store_all max_size 4
          (map (\<lambda>j. map_option (\<lambda>c. le_bytes 4 (unat c)) (read_at (centroids fse_quant) j))
               [0..<q_size fse_quant]),
        pad max_size,
        store_all max_size 8
          (map (\<lambda>j. map_option (\<lambda>c. le_bytes 8 (unat c)) (read_at (chunks bs) j))
               [0..<nat (curr_chunk_index bs + 1)]),
        checked_store max_size 8 (Some (le_bytes 8 (unat (curr_chunk bs)))),
        checked_store max_size 1
          (Some (le_bytes 1 (nat (curr_bit_count bs mod 256)))),
        set_out_size max_size]
       (s\<lparr>offset := 0\<rparr>)"

text \<open>
  The layout as the specification tabulates it: the fields in order, with zero bytes up
  to the next multiple of 8 after the frequencies and after the centroids.
\<close>

definition zero_pad :: "nat \<Rightarrow> byte list" where
  "zero_pad n = replicate ((8 - n mod 8) mod 8) 0"

definition layout_head :: "FSEBitStream \<Rightarrow> FSEQuant \<Rightarrow> nat \<Rightarrow> byte list" where
  "layout_head bs fse_quant table_log =
     le_bytes 2 (to_uint16 (int (q_size fse_quant)))
     @ le_bytes 2 (to_uint16 (int table_log))
     @ le_bytes 4 (to_uint32 (curr_chunk_index bs + 2))
     @ concat (map (le_bytes 4) (frequency fse_quant))"

definition layout_tables :: "FSEBitStream \<Rightarrow> FSEQuant \<Rightarrow> nat \<Rightarrow> byte list" where
  "layout_tables bs fse_quant table_log =
     layout_head bs fse_quant table_log
     @ zero_pad (length (layout_head bs fse_quant table_log))
     @ concat (map (\<lambda>c. le_bytes 4 (unat c)) (centroids fse_quant))"

definition layout :: "FSEBitStream \<Rightarrow> FSEQuant \<Rightarrow> nat \<Rightarrow> byte list" where
  "layout bs fse_quant table_log =
     layout_tables bs fse_quant table_log
     @ zero_pad (length (layout_tables bs fse_quant table_log))
     @ concat (map (\<lambda>c. le_bytes 8 (unat c)) (take (nat (curr_chunk_index bs + 1)) (chunks bs)))
     @ le_bytes 8 (unat (curr_chunk bs))
     @ le_bytes 1 (nat (curr_bit_count bs mod 256))"

text \<open>
  For the proofs: the state in which the bytes \<open>P\<close> have been written from offset 0
  into the buffer of \<open>s0\<close>, and what it means that a step \<open>f\<close>, started there, emits the
  bytes \<open>B\<close> under the budget \<open>max_size\<close>: it appends them when they fit, and returns
  \<open>RET_ERROR\<close> without touching \<open>*out_size\<close> when they do not.
\<close>

definition written_state :: "byte list \<Rightarrow> ser \<Rightarrow> ser" where
  "written_state P s0 =
     \<lparr>out8 = P @ drop (length P) (out8 s0), offset = length P, out_size = out_size s0\<rparr>"

definition emits ::
  "nat \<Rightarrow> ser \<Rightarrow> (ser \<Rightarrow> error option \<times> ser) \<Rightarrow> byte list \<Rightarrow> byte list \<Rightarrow> bool" where
  "emits max_size s0 f P B =
     (if length P + length B \<le> max_size
      then f (written_state P s0) = (None, written_state (P @ B) s0)
      else fst (f (written_state P s0)) = Some RET_ERROR \<and>
           out_size (snd (f (written_state P s0))) = out_size s0)"

definition finishes ::
  "nat \<Rightarrow> ser \<Rightarrow> (ser \<Rightarrow> error option \<times> ser) \<Rightarrow> byte list \<Rightarrow> byte list \<Rightarrow> bool" where
  "finishes max_size s0 f P B =
     (if length P + length B \<le> max_size
      then f (written_state P s0) =
             (None, (written_state (P @ B) s0)\<lparr>out_size := length (P @ B)\<rparr>)
      else fst (f (written_state P s0)) = Some RET_ERROR \<and>
           out_size (snd (f (written_state P s0))) = out_size s0)"

section \<open>The encoder loop and the compression of one tensor\<close>

text \<open>
  Modelled from the spec: the member functions of \<open>FSEBitStream\<close> are defined in a source
  file that is not among the sources. They are parameters of the encoder:
  \<open>Create(bit_capacity)\<close> gives the stream or fails, \<open>Push(value, bit_count)\<close>, \<open>Empty()\<close>
  and \<open>Flush()\<close> change it.
\<close>

record stream_ops =
  Create :: "nat \<Rightarrow> error + FSEBitStream"
  Push :: "FSEBitStream \<Rightarrow> int \<Rightarrow> nat \<Rightarrow> FSEBitStream"
  Empty :: "FSEBitStream \<Rightarrow> FSEBitStream"
  Flush :: "FSEBitStream \<Rightarrow> FSEBitStream"

text \<open>An element read at an \<open>int\<close> index: \<open>None\<close> when the index is outside the array.\<close>

definition read_at_int :: "'a list \<Rightarrow> int \<Rightarrow> 'a option" where
  "read_at_int xs i = (if 0 \<le> i then read_at xs (nat i) else None)"

text \<open>
  \<open>FSEEncodeSymbolGetNewState\<close>: the stream after the push, and the new state. The sum
  \<open>state + delta_bit_count[sym]\<close> is computed in \<open>uint32_t\<close>, its shift by \<open>k16Bit\<close> is
  narrowed to the \<open>uint8_t bits_out\<close>; \<open>state >> bits_out\<close> is an \<open>int\<close> shift, undefined
  from 32 bits on. \<open>None\<close> is undefined behaviour.
\<close>

definition FSEEncodeSymbolGetNewState ::
  "stream_ops \<Rightarrow> FSEBitStream \<Rightarrow> nat \<Rightarrow> nat \<Rightarrow> encoding_tables \<Rightarrow> (FSEBitStream \<times> nat) option" where
  "FSEEncodeSymbolGetNewState ops bs symb state tabs =
     (case (read_at (delta_bit_count tabs) symb, read_at (delta_state tabs) symb) of
        (Some dbc, Some ds) \<Rightarrow>
          let bits_out = (to_uint32 (int state + int dbc) div 2 ^ k16Bit) mod 256;
              bs' = Push ops bs (int state) bits_out
          in if bits_out \<ge> 32 then None
             else
               (case read_at_int (coding_table tabs) (int (state div 2 ^ bits_out) + ds) of
                  None \<Rightarrow> None
                | Some new_state \<Rightarrow> Some (bs', new_state))
      | _ \<Rightarrow> None)"

text \<open>The loop \<open>for (int i = 0; i < data_count; i++)\<close> over the symbols read from \<open>data\<close>.\<close>

fun encode_loop ::
  "stream_ops \<Rightarrow> encoding_tables \<Rightarrow> nat option list \<Rightarrow> FSEBitStream \<times> nat
     \<Rightarrow> (FSEBitStream \<times> nat) option" where
  "encode_loop ops tabs [] r = Some r"
| "encode_loop ops tabs (d # rest) r =
     (case d of
        None \<Rightarrow> None
      | Some symb \<Rightarrow>
          (case FSEEncodeSymbolGetNewState ops (fst r) symb (snd r) tabs of
             None \<Rightarrow> None
           | Some r' \<Rightarrow> encode_loop ops tabs rest r'))"

text \<open>
  \<open>FSEEncode\<close>. The initial \<open>uint16_t state = table_size\<close> is narrowed to 16 bits; the
  last push is \<open>Push(state - table_size, table_log)\<close>.
\<close>

definition FSEEncode ::
  "stream_ops \<Rightarrow> FSEBitStream \<Rightarrow> nat list \<Rightarrow> nat \<Rightarrow> nat list \<Rightarrow> nat \<Rightarrow> nat
     \<Rightarrow> error + FSEBitStream" where
  "FSEEncode ops bs data data_count freq frequency_count table_log =
     (case FSECreateStatesForEncoding freq frequency_count table_log of
        Inl e \<Rightarrow> Inl e
      | Inr tabs \<Rightarrow>
          let table_size = (2 :: int) ^ table_log;
              state = to_uint16 table_size
          in (case read_at data 0 of
                None \<Rightarrow> Inl UNDEFINED
              | Some d0 \<Rightarrow>
                  (case FSEEncodeSymbolGetNewState ops bs d0 state tabs of
                     None \<Rightarrow> Inl UNDEFINED
                   | Some (bs1, state1) \<Rightarrow>
                       (case encode_loop ops tabs (map (read_at data) [0..<data_count])
                               (Empty ops bs1, state1) of
                          None \<Rightarrow> Inl UNDEFINED
                        | Some (bs2, state2) \<Rightarrow>
                            Inr (Push ops bs2 (int state2 - table_size) table_log)))))"

definition kMaxModelBufferSize :: nat where
  "kMaxModelBufferSize = 1024 * 1024 * 1024 * 2"

text \<open>
  \<open>SerializingToTensor\<close>, for the runs in which \<open>malloc\<close> succeeds: \<open>max_size\<close> is the byte
  size of the tensor, \<open>uninit\<close> the content that the allocated memory happens to have.
  The result is the payload of the new tensor, the first \<open>out_size\<close> bytes of the buffer.
\<close>

definition SerializingToTensor ::
  "FSEBitStream \<Rightarrow> FSEQuant \<Rightarrow> nat \<Rightarrow> nat \<Rightarrow> (nat \<Rightarrow> byte) \<Rightarrow> error + byte list" where
  "SerializingToTensor bs fse_quant table_log max_size uninit =
     (if max_size = 0 \<or> max_size > kMaxModelBufferSize then Inl RET_ERROR
      else
        (case SerializingToBuffer bs fse_quant table_log max_size
                \<lparr>out8 = map uninit [0..<max_size], offset = 0, out_size = 0\<rparr> of
           (None, s) \<Rightarrow> Inr (take (out_size s) (out8 s))
         | (Some e, s) \<Rightarrow> Inl e))"

text \<open>
  \<open>Compress\<close>, from the result \<open>squeezed\<close> of \<open>SqueezeQuant\<close> on (a function that is not
  among the sources): normalization, creation of the bit stream with a capacity of
  \<open>k16Bit * symbol_table_count\<close> bits, encoding, \<open>Flush\<close>, serialization.
\<close>

definition Compress ::
  "stream_ops \<Rightarrow> (int \<Rightarrow> int \<Rightarrow> nat \<Rightarrow> int) \<Rightarrow> nat \<Rightarrow> nat \<Rightarrow> error + FSEQuant \<Rightarrow> nat
     \<Rightarrow> (nat \<Rightarrow> byte) \<Rightarrow> error + byte list" where
  "Compress ops rescale MAX_TABLE_LOG MAX_SYMS squeezed tensor_size uninit =
     (case squeezed of
        Inl e \<Rightarrow> Inl e
      | Inr fse_quant \<Rightarrow>
          (case NormalizeFrequency rescale MAX_TABLE_LOG MAX_SYMS fse_quant of
             Inl e \<Rightarrow> Inl e
           | Inr (q, table_log) \<Rightarrow>
               (case Create ops (k16Bit * symbol_table_count q) of
                  Inl e \<Rightarrow> Inl e
                | Inr bs \<Rightarrow>
                    (case FSEEncode ops bs (symbol_table q) (symbol_table_count q)
                            (frequency q) (q_size q) table_log of
                       Inl e \<Rightarrow> Inl e
                     | Inr bs' \<Rightarrow>
                         SerializingToTensor (Flush ops bs') q table_log tensor_size uninit))))"





text \<open>
  For the proofs: two serializer states agree when they are at the same offset of
  buffers of the same size, with the same \<open>*out_size\<close>, at most the offset, and the same
  bytes below the offset; a step is uniform when, from states that agree, it returns the
  same status and states that agree.
\<close>

definition agree :: "ser \<Rightarrow> ser \<Rightarrow> bool" where
  "agree s1 s2 =
     (offset s1 = offset s2 \<and> length (out8 s1) = length (out8 s2) \<and>
      out_size s1 = out_size s2 \<and> out_size s1 \<le> offset s1 \<and>
      take (offset s1) (out8 s1) = take (offset s2) (out8 s2))"

definition uniform :: "(ser \<Rightarrow> error option \<times> ser) \<Rightarrow> bool" where
  "uniform f = (\<forall>s1 s2. agree s1 s2 \<longrightarrow>
                  fst (f s1) = fst (f s2) \<and> agree (snd (f s1)) (snd (f s2)))"

text \<open>
  For the proofs: a step keeps the first \<open>n\<close> bytes of the buffer when, started at an
  offset of at least \<open>n\<close>, it leaves them as they are and ends at such an offset.
\<close>

definition keeps :: "nat \<Rightarrow> (ser \<Rightarrow> error option \<times> ser) \<Rightarrow> bool" where
  "keeps n f = (\<forall>s. n \<le> offset s \<longrightarrow>
                  n \<le> offset (snd (f s)) \<and> take n (out8 (snd (f s))) = take n (out8 s))"

text \<open>
  An instance of the stream operations, for the examples. It follows the
  specification's description of the bit stream: \<open>Create\<close> fails for a capacity of 0 and
  otherwise gives an empty stream with room for the capacity rounded up to whole 64-bit
  chunks; \<open>Push\<close> appends the low \<open>bit_count\<close> bits of the value, most significant bit
  first, and commits the chunk when it is full; \<open>Empty\<close> resets the content; \<open>Flush\<close> is
  taken to left-align the partial chunk, which the serializer stores after the
  committed chunks.
\<close>

definition example_Create :: "nat \<Rightarrow> error + FSEBitStream" where
  "example_Create bit_capacity =
     (if bit_capacity = 0 then Inl RET_ERROR
      else Inr \<lparr>chunks = replicate ((bit_capacity + 63) div 64) 0, curr_chunk = 0,
                curr_chunk_index = - 1, curr_bit_count = 0\<rparr>)"

definition example_Push :: "FSEBitStream \<Rightarrow> int \<Rightarrow> nat \<Rightarrow> FSEBitStream" where
  "example_Push bs v bit_count =
     (let low = (word_of_int (v mod 2 ^ bit_count) :: 64 word);
          n = curr_bit_count bs + int bit_count
      in if n \<le> 64
         then bs\<lparr>curr_chunk := push_bit bit_count (curr_chunk bs) OR low,
                 curr_bit_count := n\<rparr>
         else
           let left = nat (n - 64)
           in bs\<lparr>chunks := (chunks bs)[nat (curr_chunk_index bs + 1) :=
                     push_bit (bit_count - left) (curr_chunk bs) OR drop_bit left low],
                  curr_chunk_index := curr_chunk_index bs + 1,
                  curr_chunk := take_bit left low,
                  curr_bit_count := int left\<rparr>)"

definition example_Empty :: "FSEBitStream \<Rightarrow> FSEBitStream" where
  "example_Empty bs =
     bs\<lparr>chunks := replicate (length (chunks bs)) 0, curr_chunk := 0,
        curr_chunk_index := - 1, curr_bit_count := 0\<rparr>"

definition example_Flush :: "FSEBitStream \<Rightarrow> FSEBitStream" where
  "example_Flush bs =
     bs\<lparr>curr_chunk := push_bit (nat (64 - curr_bit_count bs)) (curr_chunk bs)\<rparr>"

definition example_ops :: stream_ops where
  "example_ops =
     \<lparr>Create = example_Create, Push = example_Push, Empty = example_Empty,
      Flush = example_Flush\<rparr>"


section \<open>Properties of the spread\<close>

lemma and_mask_le: "(x :: nat) AND m \<le> m"
proof -
  have "int x AND int m \<le> int m" by (rule AND_upper2) simp
  then have "int (x AND m) \<le> int m" by (simp add: of_nat_and_eq)
  then show ?thesis by simp
qed

lemma and_tablemask: "Suc m = 2 ^ n \<Longrightarrow> (x :: nat) AND m = x mod 2 ^ n"
  by (metis diff_Suc_1 mask_eq_exp_minus_1 take_bit_eq_mask take_bit_eq_mod)

lemma spread_while_id: "p \<le> tablemask \<Longrightarrow> spread_while step tablemask p = p"
  by (simp add: spread_while.simps)

lemma spread_step_pos:
  "Suc m = 2 ^ n \<Longrightarrow> spread_while step m ((p + step) AND m) = (p + step) mod 2 ^ n"
  by (simp add: spread_while_id and_mask_le flip: and_tablemask)

lemma spread_symbol_pos:
  "Suc m = 2 ^ n \<Longrightarrow> pos s < 2 ^ n \<Longrightarrow>
   pos (spread_symbol step m symb k s) = (pos s + k * step) mod 2 ^ n"
proof (induction k arbitrary: s)
  case 0
  then show ?case by simp
next
  case (Suc k)
  let ?s' = "\<lparr>slots = (slots s)[pos s := to_uint16 (int symb)],
              pos = spread_while step m ((pos s + step) AND m),
              written = written s @ [pos s]\<rparr>"
  have p: "pos ?s' = (pos s + step) mod 2 ^ n"
    by (simp add: spread_step_pos [OF Suc.prems(1)])
  then have "pos ?s' < 2 ^ n" by simp
  then have "pos (spread_symbol step m symb k ?s') = (pos ?s' + k * step) mod 2 ^ n"
    by (rule Suc.IH [OF Suc.prems(1)])
  also have "\<dots> = (pos s + Suc k * step) mod 2 ^ n"
    unfolding p by (simp add: mod_simps algebra_simps)
  finally show ?case by simp
qed

lemma spread_symbol_written:
  "Suc m = 2 ^ n \<Longrightarrow> pos s < 2 ^ n \<Longrightarrow>
   written (spread_symbol step m symb k s) =
     written s @ map (\<lambda>j. (pos s + j * step) mod 2 ^ n) [0..<k]"
proof (induction k arbitrary: s)
  case 0
  then show ?case by simp
next
  case (Suc k)
  have "map (\<lambda>j. (pos s + j * step) mod 2 ^ n) [0..<Suc k] =
        pos s # map (\<lambda>j. ((pos s + step) mod 2 ^ n + j * step) mod 2 ^ n) [0..<k]"
    using Suc.prems
    by (simp add: upt_conv_Cons map_Suc_upt [symmetric] mod_simps ac_simps del: upt_Suc)
  then show ?case
    by (simp add: Suc.IH Suc.prems spread_step_pos del: upt_Suc)
qed

lemma spread_symbols_pos:
  "Suc m = 2 ^ n \<Longrightarrow> pos s < 2 ^ n \<Longrightarrow>
   pos (spread_symbols step m symb fs s) = (pos s + sum_list fs * step) mod 2 ^ n"
proof (induction fs arbitrary: s symb)
  case Nil
  then show ?case by simp
next
  case (Cons f fs)
  have "pos (spread_symbol step m symb f s) < 2 ^ n"
    by (simp add: spread_symbol_pos Cons.prems)
  then show ?case
    by (simp add: Cons.IH spread_symbol_pos Cons.prems mod_simps algebra_simps)
qed

lemma upt_shift_map:
  "map g [f..<f + k] = map (\<lambda>j. g (j + f)) [0..<k]"
proof -
  have "[f..<f + k] = map (\<lambda>j. j + f) [0..<k]"
    using map_add_upt [of f k] by (simp only: add.commute [of k f])
  then show ?thesis by (simp only: map_map comp_def)
qed

lemma spread_symbols_written:
  "Suc m = 2 ^ n \<Longrightarrow> pos s < 2 ^ n \<Longrightarrow>
   written (spread_symbols step m symb fs s) =
     written s @ map (\<lambda>j. (pos s + j * step) mod 2 ^ n) [0..<sum_list fs]"
proof (induction fs arbitrary: s symb)
  case Nil
  then show ?case by simp
next
  case (Cons f fs)
  let ?s' = "spread_symbol step m symb f s"
  let ?g = "\<lambda>j. (pos s + j * step) mod 2 ^ n"
  have p': "pos ?s' = (pos s + f * step) mod 2 ^ n"
    by (simp add: spread_symbol_pos Cons.prems)
  then have p: "pos ?s' < 2 ^ n" by simp
  have e: "((pos s + f * step) mod 2 ^ n + j * step) mod 2 ^ n = ?g (j + f)" for j
    by (simp add: mod_simps algebra_simps)
  have "written (spread_symbols step m symb (f # fs) s) =
        written (spread_symbols step m (Suc symb) fs ?s')"
    by simp
  also have "\<dots> = written ?s' @ map (\<lambda>j. (pos ?s' + j * step) mod 2 ^ n) [0..<sum_list fs]"
    by (rule Cons.IH [OF Cons.prems(1) p])
  also have "\<dots> = written ?s' @ map (\<lambda>j. ?g (j + f)) [0..<sum_list fs]"
    by (simp only: p' e)
  also have "\<dots> = written ?s' @ map ?g [f..<f + sum_list fs]"
    by (simp only: upt_shift_map)
  also have "\<dots> = written s @ map ?g [0..<f] @ map ?g [f..<f + sum_list fs]"
    by (simp add: spread_symbol_written [OF Cons.prems])
  also have "\<dots> = written s @ map ?g ([0..<f] @ [f..<f + sum_list fs])"
    by simp
  also have "[0..<f] @ [f..<f + sum_list fs] = [0..<sum_list (f # fs)]"
    using upt_add_eq_append [of 0 f "sum_list fs"] by simp
  finally show ?case .
qed

lemma spread_written:
  "written (spread freqs frequency_count table_log) =
     map (\<lambda>j. (j * (2 ^ table_log div 2 + 2 ^ table_log div 8 + 3)) mod 2 ^ table_log)
       [0..<sum_list (take frequency_count freqs)]"
  by (simp add: spread_def Let_def kFseTableExtendSize_def spread_symbols_written [where n = table_log])

lemma spread_pos:
  "pos (spread freqs frequency_count table_log) =
     (sum_list (take frequency_count freqs) * (2 ^ table_log div 2 + 2 ^ table_log div 8 + 3))
        mod 2 ^ table_log"
  by (simp add: spread_def Let_def kFseTableExtendSize_def spread_symbols_pos [where n = table_log])

lemma stride_inj:
  assumes "odd (step :: nat)"
  shows "inj_on (\<lambda>j. (j * step) mod 2 ^ n) {0..<2 ^ n}"
proof -
  have c: "coprime ((2::nat) ^ n) step"
    using assms by (simp add: coprime_left_2_iff_odd)
  have le: "i = j" if "i \<le> j" "j < 2 ^ n" "(i * step) mod 2 ^ n = (j * step) mod 2 ^ n"
    for i j :: nat
  proof -
    have "i * step \<le> j * step" using that(1) by simp
    then have "(2::nat) ^ n dvd j * step - i * step"
      using that(3) [symmetric] by (simp only: mod_eq_dvd_iff_nat)
    then have "(2::nat) ^ n dvd (j - i) * step" by (simp add: diff_mult_distrib)
    then have "(2::nat) ^ n dvd j - i" using c by (simp add: coprime_dvd_mult_left_iff)
    moreover have "j - i < 2 ^ n" using that(2) by simp
    ultimately have "j - i = 0" using dvd_imp_le [of "2 ^ n" "j - i"] by (cases "j - i = 0") auto
    then show ?thesis using that(1) by simp
  qed
  show ?thesis
  proof (rule inj_onI)
    fix i j :: nat
    assume "i \<in> {0..<2 ^ n}" "j \<in> {0..<2 ^ n}"
      and "(i * step) mod 2 ^ n = (j * step) mod 2 ^ n"
    then show "i = j"
      using le [of i j] le [of j i] by (cases "i \<le> j") auto
  qed
qed


lemma stride_odd:
  assumes "table_log \<noteq> 1" "table_log \<noteq> 3"
  shows "odd ((2::nat) ^ table_log div 2 + 2 ^ table_log div 8 + 3)"
proof -
  consider "table_log = 0" | "table_log = 2" | "4 \<le> table_log"
    using assms by arith
  then show ?thesis
  proof cases
    case 1
    then show ?thesis by simp
  next
    case 2
    then show ?thesis by simp
  next
    case 3
    then obtain m where m: "table_log = m + 4" by (metis add.commute le_Suc_ex)
    show ?thesis unfolding m by (simp add: power_add)
  qed
qed

lemma stride_covers:
  assumes "odd (step :: nat)"
  shows "distinct (map (\<lambda>j. (j * step) mod 2 ^ n) [0..<2 ^ n])"
    and "set (map (\<lambda>j. (j * step) mod 2 ^ n) [0..<2 ^ n]) = {0..<2 ^ n}"
proof -
  let ?g = "\<lambda>j. (j * step) mod 2 ^ n"
  have inj: "inj_on ?g {0..<2 ^ n}" by (rule stride_inj [OF assms])
  then show "distinct (map ?g [0..<2 ^ n])" by (simp add: distinct_map)
  have "?g ` {0..<2 ^ n} \<subseteq> {0..<2 ^ n}" by auto
  moreover have "card (?g ` {0..<2 ^ n}) = card {0..<(2::nat) ^ n}"
    by (rule card_image [OF inj])
  ultimately have "?g ` {0..<2 ^ n} = {0..<2 ^ n}"
    by (intro card_subset_eq) simp_all
  then show "set (map ?g [0..<2 ^ n]) = {0..<2 ^ n}" by simp
qed

text \<open>
  Claim C10. In the placement loop, the position after \<open>pos = (pos + step) & tablemask\<close>
  is at most \<open>tablemask\<close>, for every position, stride and mask; so the condition of the
  inner \<open>while (pos > tablemask)\<close> is false, the loop returns the position unchanged,
  and one placement advances the writer by exactly one stride-and-mask step.
\<close>

theorem spread_while_never_runs:
  "\<not> (pos0 + step) AND tablemask > tablemask \<and>
   spread_while step tablemask ((pos0 + step) AND tablemask) = (pos0 + step) AND tablemask \<and>
   pos (spread_symbol step tablemask symb (Suc 0) s) = (pos s + step) AND tablemask"
  by (simp add: spread_while_id and_mask_le not_less)

theorem spread_while_never_runs_witness:
  "\<not> ((5::nat) + 13) AND 15 > 15 \<and>
   spread_while 13 15 ((5 + 13) AND 15) = (5 + 13) AND 15 \<and>
   pos (spread_symbol 13 15 2 (Suc 0) \<lparr>slots = replicate 16 0, pos = 5, written = []\<rparr>) =
     (5 + 13) AND 15"
  using spread_while_never_runs [where ?pos0.0 = 5 and step = 13 and tablemask = 15 and symb = 2
      and s = "\<lparr>slots = replicate 16 0, pos = 5, written = []\<rparr>"]
  by simp

text \<open>
  Claim C2, as amended. For every frequency table whose first \<open>frequency_count\<close> entries
  sum to \<open>2 ^ table_log\<close>, and every \<open>table_log\<close> other than 1 and 3, the placement with the
  stride \<open>(table_size >> 1) + (table_size >> 3) + 3\<close> stores to every slot of
  \<open>[0, table_size)\<close> exactly once and the writer position is back at slot 0 at the end,
  so \<open>FSECreateStatesForEncoding\<close> does not take the \<open>pos != 0\<close> error return. The stride
  is odd, hence coprime to the table size, exactly for these values of \<open>table_log\<close>.
\<close>

theorem spread_visits_every_slot_once:
  assumes "table_log \<noteq> 1" and "table_log \<noteq> 3"
    and "sum_list (take frequency_count freqs) = 2 ^ table_log"
  shows "distinct (written (spread freqs frequency_count table_log)) \<and>
         set (written (spread freqs frequency_count table_log)) = {0..<2 ^ table_log} \<and>
         pos (spread freqs frequency_count table_log) = 0 \<and>
         FSECreateStatesForEncoding freqs frequency_count table_log \<noteq> Inl RET_ERROR"
proof -
  let ?step = "(2::nat) ^ table_log div 2 + 2 ^ table_log div 8 + 3"
  have o: "odd ?step" by (rule stride_odd [OF assms(1,2)])
  have w: "written (spread freqs frequency_count table_log) =
           map (\<lambda>j. (j * ?step) mod 2 ^ table_log) [0..<2 ^ table_log]"
    by (simp add: spread_written assms(3))
  have p: "pos (spread freqs frequency_count table_log) = 0"
    by (simp add: spread_pos assms(3))
  have "FSECreateStatesForEncoding freqs frequency_count table_log \<noteq> Inl RET_ERROR"
    by (simp add: FSECreateStatesForEncoding_def Let_def p split: option.split prod.split)
  then show ?thesis
    using stride_covers [OF o, of table_log] by (simp only: w p) simp
qed

theorem spread_visits_every_slot_once_witness:
  "(4::nat) \<noteq> 1 \<and> (4::nat) \<noteq> 3 \<and> sum_list (take 3 [5, 3, 8 :: nat]) = 2 ^ 4 \<and>
   distinct (written (spread [5, 3, 8] 3 4)) \<and>
   set (written (spread [5, 3, 8] 3 4)) = {0..<2 ^ 4} \<and>
   pos (spread [5, 3, 8] 3 4) = 0 \<and>
   FSECreateStatesForEncoding [5, 3, 8] 3 4 \<noteq> Inl RET_ERROR"
  using spread_visits_every_slot_once [of 4 3 "[5, 3, 8]"] by simp

text \<open>
  The claim without the restriction fails: with \<open>table_log = 3\<close> the stride is 8, every
  store goes to slot 0 and the slots 1 to 7 are never written. With \<open>table_log = 1\<close> the
  stride is 4 and slot 1 is never written.
\<close>

theorem spread_table_log_3_counterexample:
  "sum_list (take 1 [8 :: nat]) = 2 ^ 3 \<and>
   written (spread [8] 1 3) = [0, 0, 0, 0, 0, 0, 0, 0] \<and>
   \<not> distinct (written (spread [8] 1 3)) \<and>
   sum_list (take 1 [2 :: nat]) = 2 ^ 1 \<and>
   written (spread [2] 1 1) = [0, 0] \<and>
   \<not> distinct (written (spread [2] 1 1))"
  by code_simp

section \<open>Properties of the delta tables\<close>


































section \<open>Properties of the normalization\<close>

lemma float_of_uint32_exact: "x < 2 ^ 24 \<Longrightarrow> float_of_uint32 x = x"
  by (simp add: float_of_uint32_def)

lemma first_index_of_Cons_neq:
  "x \<noteq> v \<Longrightarrow> first_index_of v (x # xs) = Suc (first_index_of v xs)"
  by simp

lemma Max_Cons_gt:
  assumes "\<exists>b \<in> set arr. b > (a :: nat)"
  shows "Max (set (a # arr)) = Max (set arr)" and "Max (set arr) \<noteq> a"
proof -
  from assms obtain b where b: "b \<in> set arr" "b > a" by blast
  then have ne: "set arr \<noteq> {}" by auto
  have "a < Max (set arr)" using b by (meson List.finite_set Max_ge less_le_trans)
  then show "Max (set arr) \<noteq> a" by simp
  show "Max (set (a # arr)) = Max (set arr)"
    using ne \<open>a < Max (set arr)\<close> by (simp add: max_def)
qed

lemma Max_Cons_le:
  assumes "\<not> (\<exists>b \<in> set arr. b > (a :: nat))"
  shows "Max (set (a # arr)) = a"
proof (cases "arr = []")
  case True
  then show ?thesis by simp
next
  case False
  then have "Max (set arr) \<le> a" using assms by (simp add: not_less)
  with False show ?thesis by (simp add: max_absorb1)
qed

lemma GetMaxIndex_loop_Some:
  "\<forall>a \<in> set arr. a < 2 ^ 24 \<Longrightarrow>
   GetMaxIndex_loop arr i (Some m) index =
     (if \<exists>a \<in> set arr. a > m then int (i + first_index_of (Max (set arr)) arr) else index)"
proof (induction arr arbitrary: i m index)
  case Nil
  then show ?case by simp
next
  case (Cons a arr)
  have fa: "float_of_uint32 a = a" using Cons.prems by (simp add: float_of_uint32_exact)
  have rest: "\<forall>a \<in> set arr. a < 2 ^ 24" using Cons.prems by simp
  show ?case
  proof (cases "a > m")
    case True
    have "GetMaxIndex_loop (a # arr) i (Some m) index =
          GetMaxIndex_loop arr (Suc i) (Some a) (int i)"
      using True by (simp add: fa)
    also have "\<dots> = (if \<exists>b \<in> set arr. b > a
                      then int (Suc i + first_index_of (Max (set arr)) arr) else int i)"
      by (rule Cons.IH [OF rest])
    also have "\<dots> = int (i + first_index_of (Max (set (a # arr))) (a # arr))"
    proof (cases "\<exists>b \<in> set arr. b > a")
      case True
      from Max_Cons_gt [OF True] show ?thesis using True by simp
    next
      case False
      from Max_Cons_le [OF False] show ?thesis using False by simp
    qed
    finally show ?thesis using True by auto
  next
    case False
    have "GetMaxIndex_loop (a # arr) i (Some m) index =
          GetMaxIndex_loop arr (Suc i) (Some m) index"
      using False by (simp add: fa)
    also have "\<dots> = (if \<exists>b \<in> set arr. b > m
                      then int (Suc i + first_index_of (Max (set arr)) arr) else index)"
      by (rule Cons.IH [OF rest])
    finally have e: "GetMaxIndex_loop (a # arr) i (Some m) index =
                       (if \<exists>b \<in> set arr. b > m
                        then int (Suc i + first_index_of (Max (set arr)) arr) else index)" .
    show ?thesis
    proof (cases "\<exists>b \<in> set arr. b > m")
      case True
      then have "\<exists>b \<in> set arr. b > a" using False by (meson not_less le_less_trans)
      from Max_Cons_gt [OF this] show ?thesis using True e by simp
    next
      case F: False
      then have "\<not> (\<exists>b \<in> set (a # arr). b > m)" using False by simp
      then show ?thesis using F e by simp
    qed
  qed
qed

lemma GetMaxIndex_first_max:
  assumes "arr \<noteq> []" and "\<forall>a \<in> set arr. a < 2 ^ 24"
  shows "GetMaxIndex arr (length arr) = int (first_max_index arr)"
proof -
  from assms(1) obtain a rest where ar: "arr = a # rest" by (cases arr) auto
  have fa: "float_of_uint32 a = a" using assms(2) ar by (simp add: float_of_uint32_exact)
  have r: "\<forall>a \<in> set rest. a < 2 ^ 24" using assms(2) ar by simp
  have "GetMaxIndex arr (length arr) = GetMaxIndex_loop rest (Suc 0) (Some a) 0"
    by (simp add: GetMaxIndex_def ar fa)
  also have "\<dots> = (if \<exists>b \<in> set rest. b > a
                    then int (Suc 0 + first_index_of (Max (set rest)) rest) else 0)"
    by (rule GetMaxIndex_loop_Some [OF r])
  also have "\<dots> = int (first_index_of (Max (set (a # rest))) (a # rest))"
  proof (cases "\<exists>b \<in> set rest. b > a")
    case True
    from Max_Cons_gt [OF True] show ?thesis using True by simp
  next
    case False
    from Max_Cons_le [OF False] show ?thesis using False by simp
  qed
  finally show ?thesis by (simp add: first_max_index_def ar)
qed

lemma first_index_of_mem:
  "v \<in> set xs \<Longrightarrow> first_index_of v xs < length xs \<and> xs ! first_index_of v xs = v"
  by (induction xs) auto

lemma first_max_index_props:
  assumes "xs \<noteq> []"
  shows "first_max_index xs < length xs" and "xs ! first_max_index xs = Max (set xs)"
proof -
  have "Max (set xs) \<in> set xs" using assms by (simp add: Max_in)
  from first_index_of_mem [OF this]
  show "first_max_index xs < length xs" and "xs ! first_max_index xs = Max (set xs)"
    by (simp_all add: first_max_index_def)
qed


lemma to_int32_range: "- (2 ^ 31) \<le> x \<Longrightarrow> x < 2 ^ 31 \<Longrightarrow> to_int32 x = x"
  by (simp add: to_int32_def)

lemma to_uint32_range: "0 \<le> x \<Longrightarrow> x < 2 ^ 32 \<Longrightarrow> to_uint32 x = nat x"
  by (simp add: to_uint32_def)

lemma to_int32_bounds: "- (2 ^ 31) \<le> to_int32 x \<and> to_int32 x < 2 ^ 31"
proof -
  have "0 \<le> (x + 2 ^ 31) mod 2 ^ 32" "(x + 2 ^ 31) mod 2 ^ 32 < (2 ^ 32 :: int)"
    by simp_all
  then show ?thesis by (simp add: to_int32_def)
qed

lemma fold_int_sum:
  "0 \<le> c \<Longrightarrow> c + int (sum_list fs) < 2 ^ 31 \<Longrightarrow>
   fold (\<lambda>f c. to_int32 (c + int f)) fs c = c + int (sum_list fs)"
proof (induction fs arbitrary: c)
  case Nil
  then show ?case by simp
next
  case (Cons f fs)
  have "to_int32 (c + int f) = c + int f"
    using Cons.prems by (intro to_int32_range) simp_all
  moreover have "fold (\<lambda>f c. to_int32 (c + int f)) fs (c + int f) = c + int f + int (sum_list fs)"
    using Cons.prems by (intro Cons.IH) simp_all
  ultimately show ?case by simp
qed

lemma int_sum_eq: "sum_list fs < 2 ^ 31 \<Longrightarrow> int_sum fs = int (sum_list fs)"
proof -
  assume "sum_list fs < 2 ^ 31"
  then have "int (sum_list fs) < 2 ^ 31"
    by (metis of_nat_less_iff of_nat_numeral of_nat_power)
  then show ?thesis
    unfolding int_sum_def using fold_int_sum [of 0 fs] by simp
qed

lemma rescaled_entries:
  "x \<in> set (rescaled rescale n fs) \<Longrightarrow> 1 \<le> x \<and> x < 2 ^ 31"
proof -
  assume "x \<in> set (rescaled rescale n fs)"
  then obtain f where x: "x = to_uint32 (max 1 (to_int32 (rescale n (int_sum fs) f)))"
    by (auto simp: rescaled_def)
  let ?m = "max 1 (to_int32 (rescale n (int_sum fs) f))"
  have m: "1 \<le> ?m" "?m < 2147483648"
    using to_int32_bounds [of "rescale n (int_sum fs) f"] by simp_all
  then have "to_uint32 ?m = nat ?m" by (intro to_uint32_range) simp_all
  moreover have "1 \<le> nat ?m" using m(1) by linarith
  moreover have "nat ?m < 2147483648" using m by linarith
  ultimately show ?thesis using x by simp
qed

lemma length_rescaled: "length (rescaled rescale n fs) = length fs"
  by (simp add: rescaled_def)


lemma Max_pos_of_sum_pos:
  assumes "0 < sum_list (xs :: nat list)"
  shows "xs \<noteq> []" and "1 \<le> Max (set xs)"
proof -
  show ne: "xs \<noteq> []" using assms by auto
  have "\<exists>x \<in> set xs. 0 < x"
  proof (rule ccontr)
    assume "\<not> (\<exists>x \<in> set xs. 0 < x)"
    then have "\<forall>x \<in> set xs. x = 0" by simp
    then have "sum_list xs = 0" by (simp add: sum_list_eq_0_iff)
    with assms show False by simp
  qed
  then obtain x where "x \<in> set xs" "0 < x" by blast
  then have "x \<le> Max (set xs)" by simp
  with \<open>0 < x\<close> show "1 \<le> Max (set xs)" by linarith
qed

lemma dec_first_max_props:
  assumes "0 < sum_list xs"
  shows "length (dec_first_max xs) = length xs"
    and "Suc (sum_list (dec_first_max xs)) = sum_list xs"
    and "\<forall>x \<in> set xs. x < b \<Longrightarrow> \<forall>x \<in> set (dec_first_max xs). x < b"
proof -
  note ne = Max_pos_of_sum_pos [OF assms]
  note fm = first_max_index_props [OF ne(1)]
  show "length (dec_first_max xs) = length xs" by (simp add: dec_first_max_def)
  have "sum_list (dec_first_max xs) =
        sum_list xs + (xs ! first_max_index xs - 1) - xs ! first_max_index xs"
    unfolding dec_first_max_def by (rule sum_list_update [OF fm(1)])
  moreover have "xs ! first_max_index xs \<le> sum_list xs"
    using fm(1) by (simp add: member_le_sum_list)
  ultimately show "Suc (sum_list (dec_first_max xs)) = sum_list xs"
    using ne(2) fm(2) by simp
  show "\<forall>x \<in> set (dec_first_max xs). x < b" if b: "\<forall>x \<in> set xs. x < b"
  proof
    fix x assume "x \<in> set (dec_first_max xs)"
    then have "x \<in> insert (xs ! first_max_index xs - 1) (set xs)"
      unfolding dec_first_max_def using set_update_subset_insert by fastforce
    moreover have "xs ! first_max_index xs < b" using b fm(1) by simp
    ultimately show "x < b" using b by auto
  qed
qed

lemma spec_shrink_unfold:
  "target < sum_list xs \<Longrightarrow> spec_shrink target xs = spec_shrink target (dec_first_max xs)"
proof -
  assume t: "target < sum_list xs"
  then have "0 < sum_list xs" by simp
  from dec_first_max_props(2) [OF this]
  have "sum_list xs - target = Suc (sum_list (dec_first_max xs) - target)"
    using t by linarith
  then show ?thesis by (simp add: spec_shrink_def funpow_swap1)
qed

lemma spec_shrink_done: "sum_list xs \<le> target \<Longrightarrow> spec_shrink target xs = xs"
  by (simp add: spec_shrink_def)

lemma shrink_eq:
  assumes "length freq \<le> Suc MAX_SYMS"
    and "\<forall>a \<in> set freq. a < 2 ^ 24"
  shows "shrink MAX_SYMS (length freq) (int n) (freq, int (sum_list freq)) =
           Inr (spec_shrink n freq, int (sum_list (spec_shrink n freq)))"
  using assms
proof (induction "sum_list freq - n" arbitrary: freq)
  case 0
  then have "sum_list freq \<le> n" by simp
  then show ?case by (simp add: shrink.simps spec_shrink_done)
next
  case (Suc d)
  then have gt: "n < sum_list freq" by linarith
  then have pos: "0 < sum_list freq" by simp
  note ne = Max_pos_of_sum_pos [OF pos]
  note fm = first_max_index_props [OF ne(1)]
  note dp = dec_first_max_props [OF pos]
  have mi: "GetMaxIndex freq (length freq) = int (first_max_index freq)"
    by (rule GetMaxIndex_first_max [OF ne(1) Suc.prems(2)])
  have ok: "\<not> (int (first_max_index freq) < 0 \<or> int (first_max_index freq) > int MAX_SYMS)"
    using fm(1) Suc.prems(1) by simp
  have "freq ! first_max_index freq < 2 ^ 24" using Suc.prems(2) fm(1) by simp
  then have dec: "to_uint32 (int (freq ! first_max_index freq) - 1) =
                  freq ! first_max_index freq - 1"
    using ne(2) fm(2) by (simp add: to_uint32_range)
  have upd: "int (sum_list freq) - 1 = int (sum_list (dec_first_max freq))"
    using dp(2) by linarith
  have "shrink MAX_SYMS (length freq) (int n) (freq, int (sum_list freq)) =
        shrink MAX_SYMS (length freq) (int n)
          (dec_first_max freq, int (sum_list (dec_first_max freq)))"
    using gt ok by (subst shrink.simps) (simp add: mi Let_def dec dec_first_max_def upd)
  also have "\<dots> = shrink MAX_SYMS (length (dec_first_max freq)) (int n)
          (dec_first_max freq, int (sum_list (dec_first_max freq)))"
    by (simp add: dp(1))
  also have "\<dots> = Inr (spec_shrink n (dec_first_max freq),
                        int (sum_list (spec_shrink n (dec_first_max freq))))"
  proof (rule Suc.hyps(1))
    show "d = sum_list (dec_first_max freq) - n" using Suc.hyps(2) dp(2) by linarith
    show "length (dec_first_max freq) \<le> Suc MAX_SYMS" using Suc.prems(1) dp(1) by simp
    show "\<forall>a \<in> set (dec_first_max freq). a < 2 ^ 24" by (rule dp(3) [OF Suc.prems(2)])
  qed
  finally show ?case by (simp add: spec_shrink_unfold [OF gt])
qed

lemma sum_spec_shrink: "sum_list (spec_shrink n xs) = min (sum_list xs) n"
proof (induction "sum_list xs - n" arbitrary: xs)
  case 0
  then show ?case by (simp add: spec_shrink_done)
next
  case (Suc d)
  then have gt: "n < sum_list xs" by linarith
  then have pos: "0 < sum_list xs" by simp
  note dp = dec_first_max_props [OF pos]
  have "sum_list (spec_shrink n (dec_first_max xs)) = min (sum_list (dec_first_max xs)) n"
    using Suc.hyps(2) dp(2) by (intro Suc.hyps(1)) linarith
  then show ?case using gt dp(2) by (simp add: spec_shrink_unfold [OF gt])
qed

lemma spec_shrink_bound_length:
  "\<forall>x \<in> set xs. x < b \<Longrightarrow>
   length (spec_shrink n xs) = length xs \<and> (\<forall>x \<in> set (spec_shrink n xs). x < b)"
proof (induction "sum_list xs - n" arbitrary: xs)
  case 0
  then show ?case by (simp add: spec_shrink_done)
next
  case (Suc d)
  then have gt: "n < sum_list xs" by linarith
  then have pos: "0 < sum_list xs" by simp
  note dp = dec_first_max_props [OF pos]
  have "length (spec_shrink n (dec_first_max xs)) = length (dec_first_max xs) \<and>
        (\<forall>x \<in> set (spec_shrink n (dec_first_max xs)). x < b)"
  proof (rule Suc.hyps(1))
    show "d = sum_list (dec_first_max xs) - n" using Suc.hyps(2) dp(2) by linarith
    show "\<forall>x \<in> set (dec_first_max xs). x < b" by (rule dp(3) [OF Suc.prems])
  qed
  then show ?case by (simp add: spec_shrink_unfold [OF gt] dp(1))
qed


lemma sum_spec_grow:
  assumes "xs \<noteq> []" and "sum_list xs \<le> n"
  shows "sum_list (spec_grow n xs) = n" and "length (spec_grow n xs) = length xs"
proof -
  note fm = first_max_index_props [OF assms(1)]
  show "length (spec_grow n xs) = length xs" by (simp add: spec_grow_def)
  show "sum_list (spec_grow n xs) = n"
  proof (cases "sum_list xs < n")
    case True
    have "xs ! first_max_index xs \<le> sum_list xs"
      using fm(1) by (simp add: member_le_sum_list)
    then show ?thesis
      using True by (simp add: spec_grow_def sum_list_update [OF fm(1)])
  next
    case False
    with assms(2) show ?thesis by (simp add: spec_grow_def)
  qed
qed

lemma grow_eq:
  assumes "xs \<noteq> []" and "length xs \<le> MAX_SYMS" and "\<forall>a \<in> set xs. a < 2 ^ 24"
    and "sum_list xs \<le> n" and "n \<le> 2 ^ 30"
  shows "grow MAX_SYMS (length xs) (int n) (xs, int (sum_list xs)) = Inr (spec_grow n xs)"
proof (cases "sum_list xs < n")
  case False
  then show ?thesis by (simp add: grow_def spec_grow_def)
next
  case True
  note fm = first_max_index_props [OF assms(1)]
  have mi: "GetMaxIndex xs (length xs) = int (first_max_index xs)"
    by (rule GetMaxIndex_first_max [OF assms(1,3)])
  have ok: "\<not> (int (first_max_index xs) < 0 \<or> int (first_max_index xs) \<ge> int MAX_SYMS)"
    using fm(1) assms(2) by simp
  have n30: "int n \<le> 1073741824" using assms(5) by simp
  have d: "int32_checked (int n - int (sum_list xs)) = Some (int n - int (sum_list xs))"
    using True n30 by (simp add: int32_checked_def)
  have "xs ! first_max_index xs < 16777216" using assms(3) fm(1) by simp
  then have "int (xs ! first_max_index xs) + (int n - int (sum_list xs)) < 2 ^ 32"
    using n30 by simp
  moreover have "0 \<le> int (xs ! first_max_index xs) + (int n - int (sum_list xs))"
    using True by simp
  ultimately
  have "to_uint32 (int (xs ! first_max_index xs) + (int n - int (sum_list xs))) =
        nat (int (xs ! first_max_index xs) + (int n - int (sum_list xs)))"
    by (intro to_uint32_range)
  also have "\<dots> = xs ! first_max_index xs + (n - sum_list xs)"
    using True by linarith
  finally have a: "to_uint32 (int (xs ! first_max_index xs) + (int n - int (sum_list xs))) =
                   xs ! first_max_index xs + (n - sum_list xs)" .
  have "grow MAX_SYMS (length xs) (int n) (xs, int (sum_list xs)) =
        Inr (xs[first_max_index xs :=
               to_uint32 (int (xs ! first_max_index xs) + (int n - int (sum_list xs)))])"
    using True ok by (simp add: grow_def mi Let_def d)
  also have "\<dots> = Inr (spec_grow n xs)"
    using True by (simp only: a spec_grow_def if_True)
  finally show ?thesis .
qed

lemma NormalizeFrequency_eq:
  assumes sz: "q_size q = length (frequency q)" "0 < q_size q" "q_size q \<le> MAX_SYMS"
    and tl: "table_log = min MAX_TABLE_LOG (CountBits (q_size q) + 3)" "table_log \<le> 30"
    and sm: "0 < sum_list (frequency q)" "sum_list (frequency q) < 2 ^ 31"
    and sc: "sum_list (rescaled rescale (2 ^ table_log) (frequency q)) < 2 ^ 24"
  shows "NormalizeFrequency rescale MAX_TABLE_LOG MAX_SYMS q =
           Inr (q\<lparr>frequency := spec_grow (2 ^ table_log)
                    (spec_shrink (2 ^ table_log)
                       (rescaled rescale (2 ^ table_log) (frequency q)))\<rparr>, table_log)"
proof -
  let ?n = "(2::nat) ^ table_log"
  let ?sc = "rescaled rescale (2 ^ table_log) (frequency q)"
  have n: "int ?n = 2 ^ table_log" by simp
  have n30: "?n \<le> 2 ^ 30" using tl(2) by (intro power_increasing) simp_all
  have curr: "int_sum (frequency q) = int (sum_list (frequency q))"
    by (rule int_sum_eq [OF sm(2)])
  have len: "length ?sc = length (frequency q)" by (rule length_rescaled)
  have ne: "?sc \<noteq> []" using len sz by auto
  have ent: "\<forall>a \<in> set ?sc. a < 2 ^ 24"
  proof
    fix a assume "a \<in> set ?sc"
    then have "a \<le> sum_list ?sc" by (simp add: member_le_sum_list)
    with sc show "a < 2 ^ 24" by linarith
  qed
  have upd: "int_sum ?sc = int (sum_list ?sc)"
    using sc by (intro int_sum_eq) simp
  have sh: "shrink MAX_SYMS (length ?sc) (int ?n) (?sc, int (sum_list ?sc)) =
            Inr (spec_shrink ?n ?sc, int (sum_list (spec_shrink ?n ?sc)))"
    using sz len ent by (intro shrink_eq) simp_all
  note bl = spec_shrink_bound_length [OF ent, of ?n]
  have gr: "grow MAX_SYMS (length (spec_shrink ?n ?sc)) (int ?n)
              (spec_shrink ?n ?sc, int (sum_list (spec_shrink ?n ?sc))) =
            Inr (spec_grow ?n (spec_shrink ?n ?sc))"
  proof (rule grow_eq)
    show "spec_shrink ?n ?sc \<noteq> []" using bl ne by auto
    show "length (spec_shrink ?n ?sc) \<le> MAX_SYMS" using bl len sz by simp
    show "\<forall>a \<in> set (spec_shrink ?n ?sc). a < 2 ^ 24" using bl by simp
    show "sum_list (spec_shrink ?n ?sc) \<le> ?n" by (simp add: sum_spec_shrink)
    show "?n \<le> 2 ^ 30" by (rule n30)
  qed
  have l2: "length (spec_shrink ?n ?sc) = q_size q" using bl len sz by simp
  have l1: "length ?sc = q_size q" using len sz by simp
  have tlr: "min MAX_TABLE_LOG (CountBits (q_size q) + kFseTableExtendSize) = table_log"
    by (simp add: tl(1) kFseTableExtendSize_def)
  have g1: "\<not> (length (frequency q) < q_size q \<or> 30 < table_log)"
    using sz(1) tl(2) by simp
  have tk: "take (q_size q) (frequency q) = frequency q"
    "drop (q_size q) (frequency q) = []"
    using sz(1) by simp_all
  have g2: "int_sum (frequency q) \<noteq> 0" using sm(1) unfolding curr by linarith
  have sh': "shrink MAX_SYMS (q_size q) (2 ^ table_log) (?sc @ [], int_sum ?sc) =
             Inr (spec_shrink ?n ?sc, int (sum_list (spec_shrink ?n ?sc)))"
    using sh by (simp only: l1 n upd append_Nil2)
  have gr': "grow MAX_SYMS (q_size q) (2 ^ table_log)
               (spec_shrink ?n ?sc, int (sum_list (spec_shrink ?n ?sc))) =
             Inr (spec_grow ?n (spec_shrink ?n ?sc))"
    using gr by (simp only: l2 n)
  show ?thesis
    by (simp only: NormalizeFrequency_def Let_def tlr g1 if_False tk g2 sh' gr' sum.case)
qed


lemma first_index_of_least:
  "j < first_index_of v xs \<Longrightarrow> xs ! j \<noteq> v"
proof (induction xs arbitrary: j)
  case Nil
  then show ?case by simp
next
  case (Cons x xs)
  then show ?case by (cases j) (auto split: if_splits)
qed

lemma first_max_index_first:
  assumes "xs \<noteq> []"
  shows "\<forall>j < length xs. xs ! j \<le> xs ! first_max_index xs"
    and "\<forall>j < first_max_index xs. xs ! j < xs ! first_max_index xs"
proof -
  note fm = first_max_index_props [OF assms]
  show a: "\<forall>j < length xs. xs ! j \<le> xs ! first_max_index xs"
    by (simp add: fm(2))
  show "\<forall>j < first_max_index xs. xs ! j < xs ! first_max_index xs"
  proof (intro allI impI)
    fix j assume j: "j < first_max_index xs"
    then have "xs ! j \<noteq> Max (set xs)"
      unfolding first_max_index_def by (rule first_index_of_least)
    moreover have "xs ! j \<le> xs ! first_max_index xs" using a j fm(1) by simp
    ultimately show "xs ! j < xs ! first_max_index xs" using fm(2) by simp
  qed
qed

lemma sum_list_le_length: "\<forall>x \<in> set xs. x \<le> (1::nat) \<Longrightarrow> sum_list xs \<le> length xs"
  by (induction xs) auto

lemma dec_first_max_ge1:
  assumes "\<forall>x \<in> set xs. 1 \<le> x" and "length xs < sum_list xs"
  shows "\<forall>x \<in> set (dec_first_max xs). 1 \<le> x"
proof -
  have pos: "0 < sum_list xs" using assms(2) by simp
  note ne = Max_pos_of_sum_pos [OF pos]
  note fm = first_max_index_props [OF ne(1)]
  have "2 \<le> Max (set xs)"
  proof (rule ccontr)
    assume "\<not> 2 \<le> Max (set xs)"
    then have "\<forall>x \<in> set xs. x \<le> 1"
      using ne(1) by (metis List.finite_set Max_ge le_trans not_less_eq_eq one_add_one plus_1_eq_Suc)
    from sum_list_le_length [OF this] assms(2) show False by simp
  qed
  then have m: "1 \<le> xs ! first_max_index xs - 1" using fm(2) by simp
  show ?thesis
  proof
    fix x assume "x \<in> set (dec_first_max xs)"
    then have "x \<in> insert (xs ! first_max_index xs - 1) (set xs)"
      unfolding dec_first_max_def using set_update_subset_insert by fastforce
    then show "1 \<le> x" using m assms(1) by auto
  qed
qed

lemma spec_shrink_ge1:
  "\<forall>x \<in> set xs. 1 \<le> x \<Longrightarrow> length xs \<le> n \<Longrightarrow> \<forall>x \<in> set (spec_shrink n xs). 1 \<le> x"
proof (induction "sum_list xs - n" arbitrary: xs)
  case 0
  then show ?case by (simp add: spec_shrink_done)
next
  case (Suc d)
  then have gt: "n < sum_list xs" by linarith
  then have pos: "0 < sum_list xs" by simp
  note dp = dec_first_max_props [OF pos]
  have "\<forall>x \<in> set (spec_shrink n (dec_first_max xs)). 1 \<le> x"
  proof (rule Suc.hyps(1))
    show "d = sum_list (dec_first_max xs) - n" using Suc.hyps(2) dp(2) by linarith
    show "\<forall>x \<in> set (dec_first_max xs). 1 \<le> x"
      using Suc.prems gt by (intro dec_first_max_ge1) simp_all
    show "length (dec_first_max xs) \<le> n" using Suc.prems(2) dp(1) by simp
  qed
  then show ?case by (simp add: spec_shrink_unfold [OF gt])
qed

lemma spec_grow_ge1:
  assumes "\<forall>x \<in> set xs. 1 \<le> x"
  shows "\<forall>x \<in> set (spec_grow n xs). 1 \<le> x"
proof
  fix x assume x: "x \<in> set (spec_grow n xs)"
  show "1 \<le> x"
  proof (cases "sum_list xs < n")
    case False
    with x assms show ?thesis by (simp add: spec_grow_def)
  next
    case True
    have "xs \<noteq> []" using x by (auto simp: spec_grow_def)
    note fm = first_max_index_props [OF this]
    from x True
    have "x \<in> insert (xs ! first_max_index xs + (n - sum_list xs)) (set xs)"
      unfolding spec_grow_def using set_update_subset_insert by fastforce
    moreover have "1 \<le> xs ! first_max_index xs" using assms fm(1) by simp
    ultimately show ?thesis using assms by auto
  qed
qed

lemma CountBits_gt: "x < 2 ^ CountBits x"
proof (induction x rule: CountBits.induct)
  case (1 x)
  show ?case
  proof (cases "x = 0")
    case True
    then show ?thesis by (simp add: CountBits.simps)
  next
    case False
    then have "x div 2 < 2 ^ CountBits (x div 2)" by (rule "1.IH")
    then have "x < 2 * 2 ^ CountBits (x div 2)" by linarith
    then show ?thesis using False by (subst CountBits.simps) simp
  qed
qed


text \<open>
  Claim C5. Let the alphabet size be the length of the histogram, positive and at most
  \<open>MAX_SYMS\<close>, the histogram's sum positive and within \<open>int\<close>, and \<open>scaled\<close> the table
  after the rescaling loop (its sum below \<open>2 ^ 24\<close>, where \<open>float\<close> holds every entry
  exactly). Then \<open>NormalizeFrequency\<close> succeeds, and the table it leaves is: if the sum of
  \<open>scaled\<close> exceeds the target \<open>2 ^ table_log\<close>, the result of decrementing by 1 the entry
  at the first index that holds the maximum, once for every unit of the excess, after
  which the sum is the target; if the sum is below the target, \<open>scaled\<close> with the whole
  deficit added to the entry at the first index that holds the maximum, in one step;
  and \<open>scaled\<close> itself otherwise. The index \<open>first_max_index\<close> of a non-empty table holds
  its maximum, and every entry before it is smaller.
\<close>

theorem normalize_shrinks_or_grows_first_maximum:
  assumes "q_size q = length (frequency q)" and "0 < q_size q" and "q_size q \<le> MAX_SYMS"
    and "table_log = min MAX_TABLE_LOG (CountBits (q_size q) + 3)" and "table_log \<le> 30"
    and "0 < sum_list (frequency q)" and "sum_list (frequency q) < 2 ^ 31"
    and "scaled = rescaled rescale (2 ^ table_log) (frequency q)"
    and "sum_list scaled < 2 ^ 24"
  shows "NormalizeFrequency rescale MAX_TABLE_LOG MAX_SYMS q =
           Inr (q\<lparr>frequency :=
                  (if 2 ^ table_log < sum_list scaled
                   then (dec_first_max ^^ (sum_list scaled - 2 ^ table_log)) scaled
                   else if sum_list scaled < 2 ^ table_log
                   then scaled[first_max_index scaled :=
                          scaled ! first_max_index scaled + (2 ^ table_log - sum_list scaled)]
                   else scaled)\<rparr>, table_log) \<and>
         (2 ^ table_log < sum_list scaled \<longrightarrow>
            sum_list ((dec_first_max ^^ (sum_list scaled - 2 ^ table_log)) scaled)
              = 2 ^ table_log) \<and>
         (xs \<noteq> [] \<longrightarrow>
            dec_first_max xs = xs[first_max_index xs := xs ! first_max_index xs - 1] \<and>
            first_max_index xs < length xs \<and>
            (\<forall>j < length xs. xs ! j \<le> xs ! first_max_index xs) \<and>
            (\<forall>j < first_max_index xs. xs ! j < xs ! first_max_index xs))"
proof -
  let ?n = "(2::nat) ^ table_log"
  have e: "NormalizeFrequency rescale MAX_TABLE_LOG MAX_SYMS q =
           Inr (q\<lparr>frequency := spec_grow ?n (spec_shrink ?n scaled)\<rparr>, table_log)"
    unfolding assms(8) using assms(1-7) assms(9) [unfolded assms(8)]
    by (rule NormalizeFrequency_eq)
  have a: "spec_grow ?n (spec_shrink ?n scaled) =
           (if ?n < sum_list scaled then (dec_first_max ^^ (sum_list scaled - ?n)) scaled
            else if sum_list scaled < ?n
            then scaled[first_max_index scaled :=
                   scaled ! first_max_index scaled + (?n - sum_list scaled)]
            else scaled)"
  proof (cases "?n < sum_list scaled")
    case True
    have "sum_list (spec_shrink ?n scaled) = ?n"
      using True by (simp add: sum_spec_shrink)
    then have "spec_grow ?n (spec_shrink ?n scaled) = spec_shrink ?n scaled"
      by (simp add: spec_grow_def)
    then show ?thesis using True by (simp add: spec_shrink_def)
  next
    case False
    then have "spec_shrink ?n scaled = scaled" by (simp add: spec_shrink_done)
    then show ?thesis using False by (simp add: spec_grow_def)
  qed
  have b: "?n < sum_list scaled \<longrightarrow>
           sum_list ((dec_first_max ^^ (sum_list scaled - ?n)) scaled) = ?n"
    using sum_spec_shrink [of ?n scaled] by (simp add: spec_shrink_def)
  have c: "xs \<noteq> [] \<longrightarrow>
            dec_first_max xs = xs[first_max_index xs := xs ! first_max_index xs - 1] \<and>
            first_max_index xs < length xs \<and>
            (\<forall>j < length xs. xs ! j \<le> xs ! first_max_index xs) \<and>
            (\<forall>j < first_max_index xs. xs ! j < xs ! first_max_index xs)"
    using first_max_index_props(1) [of xs] first_max_index_first [of xs]
    by (simp add: dec_first_max_def)
  show ?thesis using e b c unfolding a by blast
qed


theorem normalize_shrinks_or_grows_first_maximum_witness:
  "NormalizeFrequency exact_rescale 16 65534
     \<lparr>symbol_table = [], symbol_table_count = 0, centroids = [],
      frequency = [5, 5, 5], q_size = 3\<rparr> =
   Inr (\<lparr>symbol_table = [], symbol_table_count = 0, centroids = [],
         frequency = [10, 11, 11], q_size = 3\<rparr>, 5) \<and>
   rescaled exact_rescale (2 ^ 5) [5, 5, 5] = [11, 11, 11] \<and>
   sum_list ((dec_first_max ^^ (sum_list [11, 11, 11] - 2 ^ 5)) [11, 11, 11]) = 2 ^ 5 \<and>
   first_max_index [11, 11, 11 :: nat] < length [11, 11, 11 :: nat]"
proof -
  let ?q = "\<lparr>symbol_table = [], symbol_table_count = 0, centroids = [],
             frequency = [5, 5, 5], q_size = 3\<rparr>"
  have h4: "(5::nat) = min 16 (CountBits (q_size ?q) + 3)" by code_simp
  have h8: "[11, 11, 11] = rescaled exact_rescale (2 ^ 5) (frequency ?q)" by code_simp
  have r: "(dec_first_max ^^ Suc 0) [11, 11, 11] = [10, 11, 11]" by code_simp
  note w = normalize_shrinks_or_grows_first_maximum
    [where q = ?q and MAX_SYMS = 65534 and table_log = 5 and MAX_TABLE_LOG = 16
       and scaled = "[11, 11, 11]" and rescale = exact_rescale and xs = "[11, 11, 11]",
     OF _ _ _ h4 _ _ _ h8]
  show ?thesis using w r by (simp add: h8 [simplified, symmetric])
qed


text \<open>
  Claim C1, as amended. For every input histogram whose length is the alphabet size
  (positive, at most \<open>MAX_SYMS\<close> and at most \<open>2 ^ MAX_TABLE_LOG\<close>) and whose sum is positive
  and fits the \<open>int\<close> accumulator (below \<open>2 ^ 31\<close>), with the rescaled table summing to
  less than \<open>2 ^ 24\<close>: \<open>NormalizeFrequency\<close> returns success with
  \<open>table_log = min(MAX_TABLE_LOG, CountBits(size) + 3)\<close>, and afterwards the table has
  the same length, every entry is at least 1 and the entries sum to exactly
  \<open>2 ^ table_log\<close>.
\<close>

theorem normalize_sums_to_table_size:
  assumes "q_size q = length (frequency q)" and "0 < q_size q" and "q_size q \<le> MAX_SYMS"
    and "q_size q \<le> 2 ^ MAX_TABLE_LOG"
    and "table_log = min MAX_TABLE_LOG (CountBits (q_size q) + 3)" and "table_log \<le> 30"
    and "0 < sum_list (frequency q)" and "sum_list (frequency q) < 2 ^ 31"
    and "sum_list (rescaled rescale (2 ^ table_log) (frequency q)) < 2 ^ 24"
  shows "\<exists>q'. NormalizeFrequency rescale MAX_TABLE_LOG MAX_SYMS q = Inr (q', table_log) \<and>
              length (frequency q') = q_size q \<and>
              (\<forall>f \<in> set (frequency q'). 1 \<le> f) \<and>
              sum_list (frequency q') = 2 ^ table_log"
proof -
  let ?n = "(2::nat) ^ table_log"
  let ?sc = "rescaled rescale (2 ^ table_log) (frequency q)"
  let ?sh = "spec_shrink ?n ?sc"
  have e: "NormalizeFrequency rescale MAX_TABLE_LOG MAX_SYMS q =
           Inr (q\<lparr>frequency := spec_grow ?n ?sh\<rparr>, table_log)"
    using assms(1-3) assms(5-9) by (rule NormalizeFrequency_eq)
  have len: "length ?sc = q_size q" by (simp add: length_rescaled assms(1))
  have sz: "q_size q \<le> ?n"
  proof (cases "MAX_TABLE_LOG \<le> CountBits (q_size q) + 3")
    case True
    then show ?thesis using assms(4,5) by (simp add: min_def)
  next
    case False
    have "q_size q < 2 ^ CountBits (q_size q)" by (rule CountBits_gt)
    also have "\<dots> \<le> 2 ^ (CountBits (q_size q) + 3)" by (intro power_increasing) simp_all
    finally show ?thesis using False assms(5) by (simp add: min_def)
  qed
  have ge1: "\<forall>x \<in> set ?sc. 1 \<le> x" using rescaled_entries by blast
  have b24: "\<forall>x \<in> set ?sc. x < 2 ^ 31" using rescaled_entries by blast
  note bl = spec_shrink_bound_length [OF b24, of ?n]
  have sh1: "\<forall>x \<in> set ?sh. 1 \<le> x"
    using ge1 len sz by (intro spec_shrink_ge1) simp_all
  have ne: "?sh \<noteq> []" using bl len assms(2) by auto
  have le: "sum_list ?sh \<le> ?n" by (simp add: sum_spec_shrink)
  have "length (spec_grow ?n ?sh) = q_size q"
    using sum_spec_grow(2) [OF ne le] bl len by simp
  moreover have "\<forall>f \<in> set (spec_grow ?n ?sh). 1 \<le> f" by (rule spec_grow_ge1 [OF sh1])
  moreover have "sum_list (spec_grow ?n ?sh) = ?n" by (rule sum_spec_grow(1) [OF ne le])
  ultimately show ?thesis using e by simp
qed

theorem normalize_sums_to_table_size_witness:
  "NormalizeFrequency exact_rescale 16 65534
     \<lparr>symbol_table = [], symbol_table_count = 0, centroids = [],
      frequency = [5, 3, 2], q_size = 3\<rparr> =
   Inr (\<lparr>symbol_table = [], symbol_table_count = 0, centroids = [],
         frequency = [16, 10, 6], q_size = 3\<rparr>, 5) \<and>
   rescaled exact_rescale (2 ^ 5) [5, 3, 2] = [16, 10, 6] \<and>
   (\<exists>q'. NormalizeFrequency exact_rescale 16 65534
            \<lparr>symbol_table = [], symbol_table_count = 0, centroids = [],
             frequency = [5, 3, 2], q_size = 3\<rparr> = Inr (q', 5) \<and>
         length (frequency q') = 3 \<and> 1 \<le> Min (set (frequency q')) \<and>
         sum_list (frequency q') = 2 ^ 5)"
proof -
  let ?q = "\<lparr>symbol_table = [], symbol_table_count = 0, centroids = [],
             frequency = [5, 3, 2], q_size = 3\<rparr>"
  have h5: "(5::nat) = min 16 (CountBits (q_size ?q) + 3)" by code_simp
  have h9: "rescaled exact_rescale (2 ^ 5) [5, 3, 2] = [16, 10, 6]" by code_simp
  have ev: "NormalizeFrequency exact_rescale 16 65534 ?q =
            Inr (?q\<lparr>frequency := [16, 10, 6]\<rparr>, 5)" by code_simp
  have h9': "sum_list (rescaled exact_rescale (2 ^ 5) (frequency ?q)) < 2 ^ 24"
    by code_simp
  from normalize_sums_to_table_size
    [where q = ?q and MAX_SYMS = 65534 and table_log = 5 and MAX_TABLE_LOG = 16
       and rescale = exact_rescale, OF _ _ _ _ h5 _ _ _ h9']
  obtain q' where q': "NormalizeFrequency exact_rescale 16 65534 ?q = Inr (q', 5)"
    "length (frequency q') = 3" "\<forall>f \<in> set (frequency q'). 1 \<le> f"
    "sum_list (frequency q') = 2 ^ 5"
    by auto
  have "frequency q' \<noteq> []" using q'(2) by auto
  then have "1 \<le> Min (set (frequency q'))" using q'(3) by simp
  with q' ev h9 show ?thesis by auto
qed

text \<open>
  The claim as stated, for every histogram with a positive sum, fails where the sum
  does not fit the \<open>int\<close> accumulator: two entries of \<open>2 ^ 31\<close> sum to \<open>2 ^ 32\<close>, the
  accumulator wraps to 0 and \<open>NormalizeFrequency\<close> returns \<open>RET_ERROR\<close>.
\<close>

theorem normalize_int_overflow_counterexample:
  "0 < sum_list [2147483648, 2147483648 :: nat] \<and>
   NormalizeFrequency exact_rescale 16 65534
     \<lparr>symbol_table = [], symbol_table_count = 0, centroids = [],
      frequency = [2147483648, 2147483648], q_size = 2\<rparr> = Inl RET_ERROR"
  by code_simp

section \<open>Properties of the serializer\<close>

lemma length_le_bytes [simp]: "length (le_bytes n v) = n"
  by (simp add: le_bytes_def)

lemma written_state_simps [simp]:
  "offset (written_state P s0) = length P"
  "out_size (written_state P s0) = out_size s0"
  "out8 (written_state P s0) = P @ drop (length P) (out8 s0)"
  by (simp_all add: written_state_def)

lemma store_written:
  assumes "length P + length bs \<le> length (out8 s0)"
  shows "store bs (written_state P s0) = (None, written_state (P @ bs) s0)"
proof -
  have "drop (length bs) (drop (length P) (out8 s0)) = drop (length P + length bs) (out8 s0)"
    by (simp add: add.commute)
  then show ?thesis
    using assms by (simp add: store_def written_state_def)
qed

lemma checked_store_emits:
  assumes "length (out8 s0) = max_size" and "length bs = n"
  shows "emits max_size s0 (checked_store max_size n (Some bs)) P bs"
proof (cases "length P + length bs \<le> max_size")
  case True
  then show ?thesis
    using assms store_written [of P bs s0] by (simp add: emits_def checked_store_def)
next
  case False
  then show ?thesis using assms by (simp add: emits_def checked_store_def)
qed

lemma finishes_last:
  "length P \<le> max_size \<Longrightarrow> finishes max_size s0 (in_order [set_out_size max_size]) P []"
  by (simp add: finishes_def set_out_size_def)

lemma finishes_Cons:
  assumes "emits max_size s0 f P B"
    and "length P + length B \<le> max_size \<Longrightarrow> finishes max_size s0 (in_order fs) (P @ B) Bs"
  shows "finishes max_size s0 (in_order (f # fs)) P (B @ Bs)"
proof (cases "length P + length B \<le> max_size")
  case True
  then have f: "f (written_state P s0) = (None, written_state (P @ B) s0)"
    using assms(1) by (simp add: emits_def)
  then have e: "in_order (f # fs) (written_state P s0) = in_order fs (written_state (P @ B) s0)"
    by simp
  show ?thesis
    using assms(2) [OF True] True unfolding finishes_def e by (simp add: add.assoc)
next
  case False
  then have f: "fst (f (written_state P s0)) = Some RET_ERROR"
    "out_size (snd (f (written_state P s0))) = out_size s0"
    using assms(1) by (simp_all add: emits_def)
  obtain s' where s': "f (written_state P s0) = (Some RET_ERROR, s')"
    using f(1) by (cases "f (written_state P s0)") auto
  have "in_order (f # fs) (written_state P s0) = (Some RET_ERROR, s')"
    by (simp add: s')
  then show ?thesis using False f(2) s' by (simp add: finishes_def)
qed

lemma store_all_emits:
  assumes "length (out8 s0) = max_size" and "\<forall>b \<in> set bss. length b = n"
    and "length P \<le> max_size"
  shows "emits max_size s0 (store_all max_size n (map Some bss)) P (concat bss)"
  using assms(2,3)
proof (induction bss arbitrary: P)
  case Nil
  then show ?case by (simp add: emits_def)
next
  case (Cons b bss)
  have b: "length b = n" using Cons.prems(1) by simp
  have c: "emits max_size s0 (checked_store max_size n (Some b)) P b"
    by (rule checked_store_emits [OF assms(1) b])
  show ?case
  proof (cases "length P + length b \<le> max_size")
    case True
    then have f: "checked_store max_size n (Some b) (written_state P s0) =
                  (None, written_state (P @ b) s0)"
      using c by (simp add: emits_def)
    have "emits max_size s0 (store_all max_size n (map Some bss)) (P @ b) (concat bss)"
      using Cons.prems True by (intro Cons.IH) simp_all
    then show ?thesis
      using True by (simp add: emits_def f add.assoc)
  next
    case False
    then have f: "fst (checked_store max_size n (Some b) (written_state P s0)) = Some RET_ERROR"
      "out_size (snd (checked_store max_size n (Some b) (written_state P s0))) = out_size s0"
      using c by (simp_all add: emits_def)
    obtain s' where s': "checked_store max_size n (Some b) (written_state P s0) =
                         (Some RET_ERROR, s')"
      using f(1) by (cases "checked_store max_size n (Some b) (written_state P s0)") auto
    show ?thesis using False f(2) s' by (simp add: emits_def)
  qed
qed

lemma zero_pad_0: "n mod 8 = 0 \<Longrightarrow> zero_pad n = []"
  by (simp add: zero_pad_def)

lemma pad_count_step:
  assumes e: "even n" and n: "n mod 8 \<noteq> 0"
  shows "(8 - n mod 8) mod 8 = Suc (Suc ((8 - (n + 2) mod 8) mod 8))"
proof -
  have "even (n mod 8)" using e by (simp add: dvd_mod_iff)
  then obtain k where k: "n mod 8 = 2 * k" by (elim evenE)
  have "n mod 8 < 8" by simp
  with k n have "k = 1 \<or> k = 2 \<or> k = 3" by linarith
  then have r: "n mod 8 = 2 \<or> n mod 8 = 4 \<or> n mod 8 = 6" using k by auto
  have m: "(n + 2) mod 8 = (n mod 8 + 2) mod 8" by (simp add: mod_simps)
  show ?thesis unfolding m using r by (elim disjE) simp_all
qed

lemma le_bytes_2_0: "le_bytes 2 0 = [0, 0]"
  by (simp add: le_bytes_def numeral_2_eq_2)

lemma zero_pad_step:
  "even n \<Longrightarrow> n mod 8 \<noteq> 0 \<Longrightarrow> zero_pad n = le_bytes 2 0 @ zero_pad (n + 2)"
proof -
  assume "even n" "n mod 8 \<noteq> 0"
  then have "(8 - n mod 8) mod 8 = Suc (Suc ((8 - (n + 2) mod 8) mod 8))"
    by (rule pad_count_step)
  then show ?thesis unfolding zero_pad_def le_bytes_2_0 by (simp only: replicate_Suc append_Cons append_Nil)
qed

lemma pad_emits:
  assumes "length (out8 s0) = max_size" and "even (length P)" and "length P \<le> max_size"
  shows "emits max_size s0 (pad max_size) P (zero_pad (length P))"
  using assms(2,3)
proof (induction "(8 - length P mod 8) mod 8" arbitrary: P rule: less_induct)
  case less
  show ?case
  proof (cases "length P mod 8 = 0")
    case True
    then have "pad max_size (written_state P s0) = (None, written_state P s0)"
      by (subst pad.simps) (simp add: kAlignSize_def)
    then show ?thesis using True less.prems by (simp add: emits_def zero_pad_0)
  next
    case False
    have z: "zero_pad (length P) = le_bytes 2 0 @ zero_pad (length P + 2)"
      by (rule zero_pad_step [OF less.prems(1) False])
    show ?thesis
    proof (cases "length P + 2 \<le> max_size")
      case True
      have st: "store (le_bytes 2 0) (written_state P s0) =
                (None, written_state (P @ le_bytes 2 0) s0)"
        using True assms(1) by (intro store_written) simp
      have p: "pad max_size (written_state P s0) =
               pad max_size (written_state (P @ le_bytes 2 0) s0)"
        using False True by (subst pad.simps) (simp add: kAlignSize_def st)
      have "emits max_size s0 (pad max_size) (P @ le_bytes 2 0)
              (zero_pad (length (P @ le_bytes 2 0)))"
      proof (rule less.hyps)
        show "(8 - length (P @ le_bytes 2 0) mod 8) mod 8 < (8 - length P mod 8) mod 8"
          using pad_count_step [OF less.prems(1) False] by simp
        show "even (length (P @ le_bytes 2 0))" using less.prems(1) by simp
        show "length (P @ le_bytes 2 0) \<le> max_size" using True by simp
      qed
      then show ?thesis
        unfolding emits_def p z by (simp add: add.assoc)
    next
      case F: False
      have "pad max_size (written_state P s0) = (Some RET_ERROR, written_state P s0)"
        using False F by (subst pad.simps) (simp add: kAlignSize_def)
      then show ?thesis using F by (simp add: emits_def z)
    qed
  qed
qed


lemma store_emits:
  assumes "length (out8 s0) = max_size" and "length P + length bs \<le> max_size"
  shows "emits max_size s0 (store bs) P bs"
  using assms store_written [of P bs s0] by (simp add: emits_def)

lemma read_all:
  "k \<le> length xs \<Longrightarrow>
   map (\<lambda>j. map_option f (read_at xs j)) [0..<k] = map Some (map f (take k xs))"
  by (rule nth_equalityI) (simp_all add: read_at_def)

lemma finishes_step:
  assumes "length P \<le> max_size \<Longrightarrow> emits max_size s0 f P B"
    and "length (P @ B) \<le> max_size \<Longrightarrow> finishes max_size s0 (in_order fs) (P @ B) Bs"
    and "length P \<le> max_size"
  shows "finishes max_size s0 (in_order (f # fs)) P (B @ Bs)"
  using assms by (intro finishes_Cons) simp_all

lemma SerializingToBuffer_finishes:
  assumes len: "length (out8 s) = max_size" and two: "2 \<le> max_size"
    and fr: "q_size fse_quant = length (frequency fse_quant)"
    and ce: "q_size fse_quant = length (centroids fse_quant)"
    and ch: "nat (curr_chunk_index bs + 1) \<le> length (chunks bs)"
  shows "finishes max_size s (\<lambda>s'. SerializingToBuffer bs fse_quant table_log max_size s') []
           (layout bs fse_quant table_log)"
proof -
  let ?B1 = "le_bytes 2 (to_uint16 (int (q_size fse_quant)))"
  let ?B2 = "le_bytes 2 (to_uint16 (int table_log))"
  let ?B3 = "le_bytes 4 (to_uint32 (curr_chunk_index bs + 2))"
  let ?B4 = "concat (map (le_bytes 4) (frequency fse_quant))"
  let ?H = "layout_head bs fse_quant table_log"
  let ?B6 = "concat (map (\<lambda>c. le_bytes 4 (unat c)) (centroids fse_quant))"
  let ?T = "layout_tables bs fse_quant table_log"
  let ?B8 = "concat (map (\<lambda>c. le_bytes 8 (unat c))
                       (take (nat (curr_chunk_index bs + 1)) (chunks bs)))"
  let ?B9 = "le_bytes 8 (unat (curr_chunk bs))"
  let ?B10 = "le_bytes 1 (nat (curr_bit_count bs mod 256))"
  let ?f1 = "store ?B1"
  let ?f2 = "checked_store max_size 2 (Some ?B2)"
  let ?f3 = "checked_store max_size 4 (Some ?B3)"
  let ?f4 = "store_all max_size 4 (map Some (map (le_bytes 4) (frequency fse_quant)))"
  let ?f5 = "pad max_size"
  let ?f6 = "store_all max_size 4
               (map Some (map (\<lambda>c. le_bytes 4 (unat c)) (centroids fse_quant)))"
  let ?f8 = "store_all max_size 8
               (map Some (map (\<lambda>c. le_bytes 8 (unat c))
                  (take (nat (curr_chunk_index bs + 1)) (chunks bs))))"
  let ?f9 = "checked_store max_size 8 (Some ?B9)"
  let ?f10 = "checked_store max_size 1 (Some ?B10)"
  let ?f11 = "set_out_size max_size"
  have lenH: "length ?H = 8 + 4 * length (frequency fse_quant)"
    by (simp add: layout_head_def length_concat comp_def sum_list_triv)
  have lenT: "length ?T = length ?H + length (zero_pad (length ?H))
                + 4 * length (centroids fse_quant)"
    by (simp add: layout_tables_def length_concat comp_def sum_list_triv)
  have evH: "even (length ?H)" by (simp add: lenH)
  have evZ: "even (length (zero_pad n))" if "even n" for n
  proof (cases "n mod 8 = 0")
    case True
    then show ?thesis by (simp add: zero_pad_0)
  next
    case False
    have "even (n mod 8)" using that by (simp add: dvd_mod_iff)
    then have "even ((8 - n mod 8) mod 8)" by (simp add: dvd_mod_iff)
    then show ?thesis by (simp add: zero_pad_def)
  qed
  have evT: "even (length ?T)" using evH evZ [OF evH] by (simp add: lenT)
  let ?P7 = "?T @ zero_pad (length ?T)"
  have e2: "emits max_size s ?f2 P ?B2" for P
    by (rule checked_store_emits [OF len]) simp
  have e3: "emits max_size s ?f3 P ?B3" for P
    by (rule checked_store_emits [OF len]) simp
  have e4: "emits max_size s ?f4 P ?B4" if "length P \<le> max_size" for P
    by (rule store_all_emits [OF len _ that]) auto
  have e5: "emits max_size s ?f5 P (zero_pad (length P))"
    if "even (length P)" "length P \<le> max_size" for P
    by (rule pad_emits [OF len that])
  have e6: "emits max_size s ?f6 P ?B6" if "length P \<le> max_size" for P
    by (rule store_all_emits [OF len _ that]) auto
  have e8: "emits max_size s ?f8 P ?B8" if "length P \<le> max_size" for P
    by (rule store_all_emits [OF len _ that]) auto
  have e9: "emits max_size s ?f9 P ?B9" for P
    by (rule checked_store_emits [OF len]) simp
  have e10: "emits max_size s ?f10 P ?B10" for P
    by (rule checked_store_emits [OF len]) simp
  have s10: "finishes max_size s (in_order [?f10, ?f11]) ((?P7 @ ?B8) @ ?B9) (?B10 @ [])"
    if "length ((?P7 @ ?B8) @ ?B9) \<le> max_size"
    by (rule finishes_step [OF e10 finishes_last that])
  have s9: "finishes max_size s (in_order [?f9, ?f10, ?f11]) (?P7 @ ?B8) (?B9 @ ?B10 @ [])"
    if "length (?P7 @ ?B8) \<le> max_size"
    by (rule finishes_step [OF e9 s10 that])
  have s8: "finishes max_size s (in_order [?f8, ?f9, ?f10, ?f11]) ?P7 (?B8 @ ?B9 @ ?B10 @ [])"
    if "length ?P7 \<le> max_size"
    by (rule finishes_step [OF e8 s9 that])
  have s7: "finishes max_size s (in_order [?f5, ?f8, ?f9, ?f10, ?f11]) ?T
              (zero_pad (length ?T) @ ?B8 @ ?B9 @ ?B10 @ [])"
    if "length ?T \<le> max_size"
    by (rule finishes_step [OF e5 [OF evT] s8 that])
  let ?P5 = "?H @ zero_pad (length ?H)"
  have T: "?P5 @ ?B6 = ?T" by (simp add: layout_tables_def)
  have s6: "finishes max_size s (in_order [?f6, ?f5, ?f8, ?f9, ?f10, ?f11]) ?P5
              (?B6 @ zero_pad (length ?T) @ ?B8 @ ?B9 @ ?B10 @ [])"
    if "length ?P5 \<le> max_size"
    by (rule finishes_step [OF e6 s7 [unfolded T [symmetric]] that, unfolded T])
  have s5: "finishes max_size s (in_order [?f5, ?f6, ?f5, ?f8, ?f9, ?f10, ?f11]) ?H
              (zero_pad (length ?H) @ ?B6 @ zero_pad (length ?T) @ ?B8 @ ?B9 @ ?B10 @ [])"
    if "length ?H \<le> max_size"
    by (rule finishes_step [OF e5 [OF evH] s6 that])
  let ?P3 = "(([] @ ?B1) @ ?B2) @ ?B3"
  have H: "?P3 @ ?B4 = ?H" by (simp add: layout_head_def)
  have s4: "finishes max_size s (in_order [?f4, ?f5, ?f6, ?f5, ?f8, ?f9, ?f10, ?f11]) ?P3
              (?B4 @ zero_pad (length ?H) @ ?B6 @ zero_pad (length ?T)
                 @ ?B8 @ ?B9 @ ?B10 @ [])"
    if "length ?P3 \<le> max_size"
    by (rule finishes_step [OF e4 s5 [unfolded H [symmetric]] that, unfolded H])
  have s3: "finishes max_size s
              (in_order [?f3, ?f4, ?f5, ?f6, ?f5, ?f8, ?f9, ?f10, ?f11]) (([] @ ?B1) @ ?B2)
              (?B3 @ ?B4 @ zero_pad (length ?H) @ ?B6 @ zero_pad (length ?T)
                 @ ?B8 @ ?B9 @ ?B10 @ [])"
    if "length (([] @ ?B1) @ ?B2) \<le> max_size"
    by (rule finishes_step [OF e3 s4 that])
  have s2: "finishes max_size s
              (in_order [?f2, ?f3, ?f4, ?f5, ?f6, ?f5, ?f8, ?f9, ?f10, ?f11]) ([] @ ?B1)
              (?B2 @ ?B3 @ ?B4 @ zero_pad (length ?H) @ ?B6 @ zero_pad (length ?T)
                 @ ?B8 @ ?B9 @ ?B10 @ [])"
    if "length ([] @ ?B1) \<le> max_size"
    by (rule finishes_step [OF e2 s3 that])
  have e1: "emits max_size s ?f1 [] ?B1"
    using two by (intro store_emits [OF len]) simp
  have s1: "finishes max_size s
              (in_order [?f1, ?f2, ?f3, ?f4, ?f5, ?f6, ?f5, ?f8, ?f9, ?f10, ?f11]) []
              (?B1 @ ?B2 @ ?B3 @ ?B4 @ zero_pad (length ?H) @ ?B6 @ zero_pad (length ?T)
                 @ ?B8 @ ?B9 @ ?B10 @ [])"
    by (rule finishes_step [OF e1 s2]) simp_all
  have L: "?B1 @ ?B2 @ ?B3 @ ?B4 @ zero_pad (length ?H) @ ?B6 @ zero_pad (length ?T)
                 @ ?B8 @ ?B9 @ ?B10 @ [] = layout bs fse_quant table_log"
    by (simp add: layout_def layout_tables_def layout_head_def)
  have r1: "map (\<lambda>j. map_option (le_bytes 4) (read_at (frequency fse_quant) j))
              [0..<q_size fse_quant] = map Some (map (le_bytes 4) (frequency fse_quant))"
    using read_all [of "q_size fse_quant" "frequency fse_quant" "le_bytes 4"] fr by simp
  have r2: "map (\<lambda>j. map_option (\<lambda>c. le_bytes 4 (unat c)) (read_at (centroids fse_quant) j))
              [0..<q_size fse_quant] =
            map Some (map (\<lambda>c. le_bytes 4 (unat c)) (centroids fse_quant))"
    using read_all [of "q_size fse_quant" "centroids fse_quant" "\<lambda>c. le_bytes 4 (unat c)"] ce
    by simp
  have r3: "map (\<lambda>j. map_option (\<lambda>c. le_bytes 8 (unat c)) (read_at (chunks bs) j))
              [0..<nat (curr_chunk_index bs + 1)] =
            map Some (map (\<lambda>c. le_bytes 8 (unat c))
              (take (nat (curr_chunk_index bs + 1)) (chunks bs)))"
    by (rule read_all [OF ch])
  have w0: "s'\<lparr>offset := 0\<rparr> = written_state [] s'" for s' :: ser
    by (simp add: written_state_def)
  have S: "(\<lambda>s'. SerializingToBuffer bs fse_quant table_log max_size s') =
           (\<lambda>s'. in_order [?f1, ?f2, ?f3, ?f4, ?f5, ?f6, ?f5, ?f8, ?f9, ?f10, ?f11]
                   (s'\<lparr>offset := 0\<rparr>))"
    by (simp only: SerializingToBuffer_def r1 r2 r3)
  have ws: "written_state [] (written_state [] s) = written_state [] s"
    by (simp add: written_state_def)
  show ?thesis
    using s1 unfolding L S finishes_def w0 ws by simp
qed


lemma SerializingToBuffer_small_budget:
  assumes "length (out8 s) = max_size" and "max_size < 2"
  shows "SerializingToBuffer bs fse_quant table_log max_size s = (Some UNDEFINED, s\<lparr>offset := 0\<rparr>)"
  using assms by (simp add: SerializingToBuffer_def store_def)

lemma SerializingToBuffer_cases:
  assumes len: "length (out8 s) = max_size" and two: "2 \<le> max_size"
    and fr: "q_size fse_quant = length (frequency fse_quant)"
    and ce: "q_size fse_quant = length (centroids fse_quant)"
    and ch: "nat (curr_chunk_index bs + 1) \<le> length (chunks bs)"
  shows "length (layout bs fse_quant table_log) \<le> max_size \<Longrightarrow>
           SerializingToBuffer bs fse_quant table_log max_size s =
             (None, \<lparr>out8 = layout bs fse_quant table_log
                              @ drop (length (layout bs fse_quant table_log)) (out8 s),
                      offset = length (layout bs fse_quant table_log),
                      out_size = length (layout bs fse_quant table_log)\<rparr>)"
    and "\<not> length (layout bs fse_quant table_log) \<le> max_size \<Longrightarrow>
           fst (SerializingToBuffer bs fse_quant table_log max_size s) = Some RET_ERROR \<and>
           out_size (snd (SerializingToBuffer bs fse_quant table_log max_size s)) = out_size s"
proof -
  note f = SerializingToBuffer_finishes [OF len two fr ce ch, of table_log]
  have "(written_state [] s)\<lparr>offset := 0\<rparr> = s\<lparr>offset := 0\<rparr>"
    by (simp add: written_state_def)
  then have w: "SerializingToBuffer bs fse_quant table_log max_size (written_state [] s) =
           SerializingToBuffer bs fse_quant table_log max_size s"
    by (simp only: SerializingToBuffer_def)
  show "SerializingToBuffer bs fse_quant table_log max_size s =
             (None, \<lparr>out8 = layout bs fse_quant table_log
                              @ drop (length (layout bs fse_quant table_log)) (out8 s),
                      offset = length (layout bs fse_quant table_log),
                      out_size = length (layout bs fse_quant table_log)\<rparr>)"
    if "length (layout bs fse_quant table_log) \<le> max_size"
    using f [unfolded finishes_def w] that by (simp add: written_state_def)
  show "fst (SerializingToBuffer bs fse_quant table_log max_size s) = Some RET_ERROR \<and>
        out_size (snd (SerializingToBuffer bs fse_quant table_log max_size s)) = out_size s"
    if "\<not> length (layout bs fse_quant table_log) \<le> max_size"
    using f [unfolded finishes_def w] that by simp
qed

lemma zero_pad_aligns: "(n + length (zero_pad n)) mod 8 = 0 \<and> length (zero_pad n) < 8"
proof -
  define q r where "q = n div 8" and "r = n mod 8"
  have n: "n = 8 * q + r" and r: "r < 8" by (simp_all add: q_def r_def)
  have "(n + (8 - r) mod 8) mod 8 = 0"
  proof (cases "r = 0")
    case True
    then show ?thesis by (simp add: n)
  next
    case False
    then have "(8 - r) mod 8 = 8 - r" by simp
    moreover have "8 * q + r + (8 - r) = 8 * (q + 1)" using r by simp
    ultimately show ?thesis by (simp add: n)
  qed
  then show ?thesis by (simp add: zero_pad_def r_def)
qed


lemma length_layout_ge: "17 \<le> length (layout bs fse_quant table_log)"
  by (simp add: layout_def layout_tables_def layout_head_def)

text \<open>
  Claim C4. When \<open>SerializingToBuffer\<close> returns \<open>RET_OK\<close> (on a buffer of \<open>max_size\<close> bytes
  and tables as long as the alphabet size), \<open>*out_size\<close> is the length of the layout and
  the first \<open>*out_size\<close> bytes of the buffer are, in this order and without gaps:
  \<open>symbol_count\<close> as \<open>uint16\<close> (offset 0), \<open>table_log\<close> as \<open>uint16\<close> (offset 2), the chunk
  index plus 2 as \<open>uint32\<close> (offset 4), the frequencies as \<open>uint32\<close> each, zero bytes up to
  the next multiple of 8, the centroids as four bytes each, zero bytes up to the next
  multiple of 8, the chunks \<open>0 .. chunk index\<close> as \<open>uint64\<close> each, the partial chunk as
  \<open>uint64\<close>, and the bit count as one byte.
\<close>

theorem serialized_layout:
  assumes "length (out8 s) = max_size"
    and "q_size fse_quant = length (frequency fse_quant)"
    and "q_size fse_quant = length (centroids fse_quant)"
    and "nat (curr_chunk_index bs + 1) \<le> length (chunks bs)"
    and "SerializingToBuffer bs fse_quant table_log max_size s = (None, s')"
  shows "out_size s' = length (layout bs fse_quant table_log) \<and>
         take (out_size s') (out8 s') = layout bs fse_quant table_log \<and>
         layout bs fse_quant table_log =
           le_bytes 2 (to_uint16 (int (q_size fse_quant)))
           @ le_bytes 2 (to_uint16 (int table_log))
           @ le_bytes 4 (to_uint32 (curr_chunk_index bs + 2))
           @ concat (map (le_bytes 4) (frequency fse_quant))
           @ zero_pad (8 + 4 * q_size fse_quant)
           @ concat (map (\<lambda>c. le_bytes 4 (unat c)) (centroids fse_quant))
           @ zero_pad (length (layout_tables bs fse_quant table_log))
           @ concat (map (\<lambda>c. le_bytes 8 (unat c))
                       (take (nat (curr_chunk_index bs + 1)) (chunks bs)))
           @ le_bytes 8 (unat (curr_chunk bs))
           @ le_bytes 1 (nat (curr_bit_count bs mod 256)) \<and>
         length (layout_tables bs fse_quant table_log) =
           8 + 4 * q_size fse_quant + length (zero_pad (8 + 4 * q_size fse_quant))
             + 4 * q_size fse_quant \<and>
         (8 + 4 * q_size fse_quant + length (zero_pad (8 + 4 * q_size fse_quant))) mod 8 = 0 \<and>
         (length (layout_tables bs fse_quant table_log)
            + length (zero_pad (length (layout_tables bs fse_quant table_log)))) mod 8 = 0"
proof -
  let ?L = "layout bs fse_quant table_log"
  have two: "2 \<le> max_size"
  proof (rule ccontr)
    assume "\<not> 2 \<le> max_size"
    then have "max_size < 2" by simp
    from SerializingToBuffer_small_budget [OF assms(1) this, of bs fse_quant table_log] assms(5)
    show False by simp
  qed
  note c = SerializingToBuffer_cases [OF assms(1) two assms(2,3,4), of table_log]
  have fit: "length ?L \<le> max_size"
  proof (rule ccontr)
    assume "\<not> length ?L \<le> max_size"
    from c(2) [OF this] assms(5) show False by simp
  qed
  from c(1) [OF fit] assms(5)
  have s': "s' = \<lparr>out8 = ?L @ drop (length ?L) (out8 s), offset = length ?L,
                  out_size = length ?L\<rparr>"
    by simp
  have lenH: "length (layout_head bs fse_quant table_log) = 8 + 4 * q_size fse_quant"
    by (simp add: layout_head_def length_concat comp_def sum_list_triv assms(2))
  have lenT: "length (layout_tables bs fse_quant table_log) =
           8 + 4 * q_size fse_quant + length (zero_pad (8 + 4 * q_size fse_quant))
             + 4 * q_size fse_quant"
    by (simp add: layout_tables_def lenH length_concat comp_def sum_list_triv assms(3))
  have ex: "?L = le_bytes 2 (to_uint16 (int (q_size fse_quant)))
           @ le_bytes 2 (to_uint16 (int table_log))
           @ le_bytes 4 (to_uint32 (curr_chunk_index bs + 2))
           @ concat (map (le_bytes 4) (frequency fse_quant))
           @ zero_pad (8 + 4 * q_size fse_quant)
           @ concat (map (\<lambda>c. le_bytes 4 (unat c)) (centroids fse_quant))
           @ zero_pad (length (layout_tables bs fse_quant table_log))
           @ concat (map (\<lambda>c. le_bytes 8 (unat c))
                       (take (nat (curr_chunk_index bs + 1)) (chunks bs)))
           @ le_bytes 8 (unat (curr_chunk bs))
           @ le_bytes 1 (nat (curr_bit_count bs mod 256))"
    unfolding layout_def
    by (simp add: layout_tables_def [of bs fse_quant table_log] lenH)
       (simp add: layout_head_def)
  show ?thesis
    using ex lenT zero_pad_aligns [of "8 + 4 * q_size fse_quant"]
      zero_pad_aligns [of "length (layout_tables bs fse_quant table_log)"]
    by (simp add: s')
qed


lemma SerializingToBuffer_example:
  "SerializingToBuffer
     \<lparr>chunks = [7, 9], curr_chunk = 258, curr_chunk_index = 0, curr_bit_count = 9\<rparr>
     \<lparr>symbol_table = [], symbol_table_count = 0, centroids = [1, 2, 3],
      frequency = [16, 10, 6], q_size = 3\<rparr> 5 60
     \<lparr>out8 = replicate 60 255, offset = 77, out_size = 99\<rparr> =
   (None,
    \<lparr>out8 = [3, 0, 5, 0, 2, 0, 0, 0, 16, 0, 0, 0, 10, 0, 0, 0, 6, 0, 0, 0, 0, 0, 0, 0,
             1, 0, 0, 0, 2, 0, 0, 0, 3, 0, 0, 0, 0, 0, 0, 0, 7, 0, 0, 0, 0, 0, 0, 0,
             2, 1, 0, 0, 0, 0, 0, 0, 9, 255, 255, 255],
     offset = 57, out_size = 57\<rparr>)"
  by code_simp

theorem serialized_layout_witness:
  "SerializingToBuffer
     \<lparr>chunks = [7, 9], curr_chunk = 258, curr_chunk_index = 0, curr_bit_count = 9\<rparr>
     \<lparr>symbol_table = [], symbol_table_count = 0, centroids = [1, 2, 3],
      frequency = [16, 10, 6], q_size = 3\<rparr> 5 60
     \<lparr>out8 = replicate 60 255, offset = 77, out_size = 99\<rparr> =
   (None,
    \<lparr>out8 = [3, 0, 5, 0, 2, 0, 0, 0, 16, 0, 0, 0, 10, 0, 0, 0, 6, 0, 0, 0, 0, 0, 0, 0,
             1, 0, 0, 0, 2, 0, 0, 0, 3, 0, 0, 0, 0, 0, 0, 0, 7, 0, 0, 0, 0, 0, 0, 0,
             2, 1, 0, 0, 0, 0, 0, 0, 9, 255, 255, 255],
     offset = 57, out_size = 57\<rparr>) \<and>
   length (layout
     \<lparr>chunks = [7, 9], curr_chunk = 258, curr_chunk_index = 0, curr_bit_count = 9\<rparr>
     \<lparr>symbol_table = [], symbol_table_count = 0, centroids = [1, 2, 3],
      frequency = [16, 10, 6], q_size = 3\<rparr> 5) = 57 \<and>
   layout
     \<lparr>chunks = [7, 9], curr_chunk = 258, curr_chunk_index = 0, curr_bit_count = 9\<rparr>
     \<lparr>symbol_table = [], symbol_table_count = 0, centroids = [1, 2, 3],
      frequency = [16, 10, 6], q_size = 3\<rparr> 5 =
     [3, 0, 5, 0, 2, 0, 0, 0, 16, 0, 0, 0, 10, 0, 0, 0, 6, 0, 0, 0, 0, 0, 0, 0,
      1, 0, 0, 0, 2, 0, 0, 0, 3, 0, 0, 0, 0, 0, 0, 0, 7, 0, 0, 0, 0, 0, 0, 0,
      2, 1, 0, 0, 0, 0, 0, 0, 9]"
proof -
  let ?bs = "\<lparr>chunks = [7, 9], curr_chunk = 258, curr_chunk_index = 0, curr_bit_count = 9\<rparr>"
  let ?q = "\<lparr>symbol_table = [], symbol_table_count = 0, centroids = [1, 2, 3],
             frequency = [16, 10, 6], q_size = 3\<rparr>"
  let ?s = "\<lparr>out8 = replicate 60 255, offset = 77, out_size = 99\<rparr>"
  have h: "length (out8 ?s) = 60" "q_size ?q = length (frequency ?q)"
    "q_size ?q = length (centroids ?q)" "nat (curr_chunk_index ?bs + 1) \<le> length (chunks ?bs)"
    by simp_all
  note w = serialized_layout [OF h SerializingToBuffer_example]
  from w [THEN conjunct1, symmetric] have a: "length (layout ?bs ?q 5) = 57" by simp
  from w [THEN conjunct2, THEN conjunct1, symmetric]
  have b: "layout ?bs ?q 5 =
     [3, 0, 5, 0, 2, 0, 0, 0, 16, 0, 0, 0, 10, 0, 0, 0, 6, 0, 0, 0, 0, 0, 0, 0,
      1, 0, 0, 0, 2, 0, 0, 0, 3, 0, 0, 0, 0, 0, 0, 0, 7, 0, 0, 0, 0, 0, 0, 0,
      2, 1, 0, 0, 0, 0, 0, 0, 9]" by simp
  show ?thesis
    using a b SerializingToBuffer_example by (intro conjI)
qed


text \<open>
  Claim C7. Let \<open>R\<close> be the exact serialized size of an input, the length of its layout.
  Called with the budget \<open>max_size = R\<close> (on a buffer of \<open>R\<close> bytes), \<open>SerializingToBuffer\<close>
  returns \<open>RET_OK\<close> and sets \<open>*out_size = R\<close>; called with the budget \<open>R - 1\<close> (on a
  buffer of \<open>R - 1\<close> bytes), it returns \<open>RET_ERROR\<close> and \<open>*out_size\<close> keeps its old value.
\<close>

theorem exact_budget_succeeds_one_less_fails:
  assumes "q_size fse_quant = length (frequency fse_quant)"
    and "q_size fse_quant = length (centroids fse_quant)"
    and "nat (curr_chunk_index bs + 1) \<le> length (chunks bs)"
    and "R = length (layout bs fse_quant table_log)"
    and "length (out8 s) = R" and "length (out8 t) = R - 1"
  shows "fst (SerializingToBuffer bs fse_quant table_log R s) = None \<and>
         out_size (snd (SerializingToBuffer bs fse_quant table_log R s)) = R \<and>
         fst (SerializingToBuffer bs fse_quant table_log (R - 1) t) = Some RET_ERROR \<and>
         out_size (snd (SerializingToBuffer bs fse_quant table_log (R - 1) t)) = out_size t"
proof -
  have R17: "17 \<le> R" unfolding assms(4) by (rule length_layout_ge)
  then have two: "2 \<le> R" "2 \<le> R - 1" by simp_all
  have fit: "length (layout bs fse_quant table_log) \<le> R" by (simp add: assms(4))
  have nofit: "\<not> length (layout bs fse_quant table_log) \<le> R - 1"
    using R17 by (simp add: assms(4) [symmetric])
  note a = SerializingToBuffer_cases(1) [OF assms(5) two(1) assms(1,2,3) fit]
  note b = SerializingToBuffer_cases(2) [OF assms(6) two(2) assms(1,2,3) nofit]
  show ?thesis using a b by (simp add: assms(4) [symmetric])
qed

lemma layout_example:
  "layout \<lparr>chunks = [7, 9], curr_chunk = 258, curr_chunk_index = 0, curr_bit_count = 9\<rparr>
     \<lparr>symbol_table = [], symbol_table_count = 0, centroids = [1, 2, 3],
      frequency = [16, 10, 6], q_size = 3\<rparr> 5 =
     [3, 0, 5, 0, 2, 0, 0, 0, 16, 0, 0, 0, 10, 0, 0, 0, 6, 0, 0, 0, 0, 0, 0, 0,
      1, 0, 0, 0, 2, 0, 0, 0, 3, 0, 0, 0, 0, 0, 0, 0, 7, 0, 0, 0, 0, 0, 0, 0,
      2, 1, 0, 0, 0, 0, 0, 0, 9]"
  by code_simp

theorem exact_budget_succeeds_one_less_fails_witness:
  "fst (SerializingToBuffer
     \<lparr>chunks = [7, 9], curr_chunk = 258, curr_chunk_index = 0, curr_bit_count = 9\<rparr>
     \<lparr>symbol_table = [], symbol_table_count = 0, centroids = [1, 2, 3],
      frequency = [16, 10, 6], q_size = 3\<rparr> 5 57
     \<lparr>out8 = replicate 57 255, offset = 0, out_size = 99\<rparr>) = None \<and>
   out_size (snd (SerializingToBuffer
     \<lparr>chunks = [7, 9], curr_chunk = 258, curr_chunk_index = 0, curr_bit_count = 9\<rparr>
     \<lparr>symbol_table = [], symbol_table_count = 0, centroids = [1, 2, 3],
      frequency = [16, 10, 6], q_size = 3\<rparr> 5 57
     \<lparr>out8 = replicate 57 255, offset = 0, out_size = 99\<rparr>)) = 57 \<and>
   fst (SerializingToBuffer
     \<lparr>chunks = [7, 9], curr_chunk = 258, curr_chunk_index = 0, curr_bit_count = 9\<rparr>
     \<lparr>symbol_table = [], symbol_table_count = 0, centroids = [1, 2, 3],
      frequency = [16, 10, 6], q_size = 3\<rparr> 5 56
     \<lparr>out8 = replicate 56 255, offset = 0, out_size = 99\<rparr>) = Some RET_ERROR \<and>
   out_size (snd (SerializingToBuffer
     \<lparr>chunks = [7, 9], curr_chunk = 258, curr_chunk_index = 0, curr_bit_count = 9\<rparr>
     \<lparr>symbol_table = [], symbol_table_count = 0, centroids = [1, 2, 3],
      frequency = [16, 10, 6], q_size = 3\<rparr> 5 56
     \<lparr>out8 = replicate 56 255, offset = 0, out_size = 99\<rparr>)) = 99"
proof -
  let ?bs = "\<lparr>chunks = [7, 9], curr_chunk = 258, curr_chunk_index = 0, curr_bit_count = 9\<rparr>"
  let ?q = "\<lparr>symbol_table = [], symbol_table_count = 0, centroids = [1, 2, 3],
             frequency = [16, 10, 6], q_size = 3\<rparr>"
  let ?s = "\<lparr>out8 = replicate 57 255, offset = 0, out_size = 99\<rparr>"
  let ?t = "\<lparr>out8 = replicate 56 255, offset = 0, out_size = 99\<rparr>"
  have R: "(57::nat) = length (layout ?bs ?q 5)" by (simp add: layout_example)
  have h: "q_size ?q = length (frequency ?q)" "q_size ?q = length (centroids ?q)"
    "nat (curr_chunk_index ?bs + 1) \<le> length (chunks ?bs)"
    by simp_all
  have l: "length (out8 ?s) = 57" "length (out8 ?t) = 57 - 1" by simp_all
  from exact_budget_succeeds_one_less_fails [OF h R l] show ?thesis by simp
qed

lemma keeps_store: "keeps n (store bs)"
  by (auto simp: keeps_def store_def)

lemma keeps_checked_store: "keeps n (checked_store max_size k v)"
  using keeps_store [of n]
  by (auto simp: keeps_def checked_store_def split: option.splits)

lemma keeps_set_out_size: "keeps n (set_out_size max_size)"
  by (auto simp: keeps_def set_out_size_def)

lemma keeps_in_order: "\<forall>f \<in> set fs. keeps n f \<Longrightarrow> keeps n (in_order fs)"
proof (induction fs)
  case Nil
  then show ?case by (simp add: keeps_def)
next
  case (Cons f fs)
  have kf: "keeps n f" and kr: "keeps n (in_order fs)" using Cons by simp_all
  show ?case
    unfolding keeps_def
  proof (intro allI impI)
    fix s :: ser assume o: "n \<le> offset s"
    obtain r s' where fs: "f s = (r, s')" by (cases "f s")
    from kf o fs have k1: "n \<le> offset s'" "take n (out8 s') = take n (out8 s)"
      by (auto simp: keeps_def dest!: spec [of _ s])
    show "n \<le> offset (snd (in_order (f # fs) s)) \<and>
          take n (out8 (snd (in_order (f # fs) s))) = take n (out8 s)"
    proof (cases r)
      case None
      from kr k1(1) have "n \<le> offset (snd (in_order fs s')) \<and>
          take n (out8 (snd (in_order fs s'))) = take n (out8 s')"
        by (simp add: keeps_def)
      then show ?thesis using fs None k1 by simp
    next
      case (Some e)
      then show ?thesis using fs k1 by simp
    qed
  qed
qed

lemma keeps_store_all: "keeps n (store_all max_size k vs)"
proof (induction vs)
  case Nil
  then show ?case by (simp add: keeps_def)
next
  case (Cons v vs)
  show ?case
    unfolding keeps_def
  proof (intro allI impI)
    fix s :: ser assume o: "n \<le> offset s"
    obtain r s' where fs: "checked_store max_size k v s = (r, s')"
      by (cases "checked_store max_size k v s")
    from keeps_checked_store [of n max_size k v] o fs
    have k1: "n \<le> offset s'" "take n (out8 s') = take n (out8 s)"
      by (auto simp: keeps_def dest!: spec [of _ s])
    show "n \<le> offset (snd (store_all max_size k (v # vs) s)) \<and>
          take n (out8 (snd (store_all max_size k (v # vs) s))) = take n (out8 s)"
    proof (cases r)
      case None
      from Cons k1(1) have "n \<le> offset (snd (store_all max_size k vs s')) \<and>
          take n (out8 (snd (store_all max_size k vs s'))) = take n (out8 s')"
        by (simp add: keeps_def)
      then show ?thesis using fs None k1 by simp
    next
      case (Some e)
      then show ?thesis using fs k1 by simp
    qed
  qed
qed

lemma keeps_pad: "keeps n (pad max_size)"
proof -
  have "n \<le> offset s \<longrightarrow>
          n \<le> offset (snd (pad max_size s)) \<and>
          take n (out8 (snd (pad max_size s))) = take n (out8 s)" for s
  proof (induction max_size s rule: pad.induct)
    case (1 max_size s)
    show ?case
    proof (intro impI)
      assume o: "n \<le> offset s"
      show "n \<le> offset (snd (pad max_size s)) \<and>
            take n (out8 (snd (pad max_size s))) = take n (out8 s)"
      proof (cases "offset s mod kAlignSize \<noteq> 0")
        case False
        then show ?thesis using o by (subst (1 2) pad.simps) simp
      next
        case True
        show ?thesis
        proof (cases "offset s + 2 > max_size")
          case T: True
          then show ?thesis using o True by (subst (1 2) pad.simps) simp
        next
          case False
          obtain r s' where c: "store (le_bytes 2 0) s = (r, s')"
            by (cases "store (le_bytes 2 0) s")
          from keeps_store [of n "le_bytes 2 0"] o c
          have k1: "n \<le> offset s'" "take n (out8 s') = take n (out8 s)"
            by (auto simp: keeps_def dest!: spec [of _ s])
          have p: "pad max_size s = (case r of None \<Rightarrow> pad max_size s' | Some e \<Rightarrow> (Some e, s'))"
            using True False c by (subst pad.simps) (simp split: option.splits)
          show ?thesis
          proof (cases r)
            case None
            from "1.IH" [OF True False c [symmetric] None] k1
            show ?thesis by (simp add: p None)
          next
            case (Some e)
            then show ?thesis using k1 by (simp add: p)
          qed
        qed
      qed
    qed
  qed
  then show ?thesis by (simp add: keeps_def)
qed

lemma SerializingToBuffer_first_field:
  assumes "2 \<le> length (out8 s)"
  shows "take 2 (out8 (snd (SerializingToBuffer bs fse_quant table_log max_size s))) =
           le_bytes 2 (to_uint16 (int (q_size fse_quant)))"
proof -
  let ?X = "le_bytes 2 (to_uint16 (int (q_size fse_quant)))"
  let ?s1 = "s\<lparr>out8 := ?X @ drop 2 (out8 s), offset := 2\<rparr>"
  let ?rest = "[checked_store max_size 2 (Some (le_bytes 2 (to_uint16 (int table_log)))),
        checked_store max_size 4
          (Some (le_bytes 4 (to_uint32 (curr_chunk_index bs + 2)))),
        store_all max_size 4
          (map (\<lambda>j. map_option (le_bytes 4) (read_at (frequency fse_quant) j))
               [0..<q_size fse_quant]),
        pad max_size,
        store_all max_size 4
          (map (\<lambda>j. map_option (\<lambda>c. le_bytes 4 (unat c)) (read_at (centroids fse_quant) j))
               [0..<q_size fse_quant]),
        pad max_size,
        store_all max_size 8
          (map (\<lambda>j. map_option (\<lambda>c. le_bytes 8 (unat c)) (read_at (chunks bs) j))
               [0..<nat (curr_chunk_index bs + 1)]),
        checked_store max_size 8 (Some (le_bytes 8 (unat (curr_chunk bs)))),
        checked_store max_size 1
          (Some (le_bytes 1 (nat (curr_bit_count bs mod 256)))),
        set_out_size max_size]"
  have st: "store ?X (s\<lparr>offset := 0\<rparr>) = (None, ?s1)"
    using assms by (simp add: store_def numeral_2_eq_2)
  have e: "SerializingToBuffer bs fse_quant table_log max_size s = in_order ?rest ?s1"
    unfolding SerializingToBuffer_def by (simp only: in_order.simps st prod.case option.case)
  have "keeps 2 (in_order ?rest)"
    by (rule keeps_in_order)
       (simp add: keeps_checked_store keeps_store_all keeps_pad keeps_set_out_size)
  then have "take 2 (out8 (snd (in_order ?rest ?s1))) = take 2 (out8 ?s1)"
    by (simp add: keeps_def)
  then show ?thesis by (simp add: e)
qed

lemma SerializingToBuffer_first_check:
  assumes "2 \<le> length (out8 s)" and "max_size < 4"
  shows "SerializingToBuffer bs fse_quant table_log max_size s =
           (Some RET_ERROR,
            s\<lparr>out8 := le_bytes 2 (to_uint16 (int (q_size fse_quant))) @ drop 2 (out8 s),
              offset := 2\<rparr>)"
  using assms by (simp add: SerializingToBuffer_def store_def checked_store_def numeral_2_eq_2)

lemma SerializingToBuffer_no_room:
  assumes "length (out8 s) < 2"
  shows "SerializingToBuffer bs fse_quant table_log max_size s = (Some UNDEFINED, s\<lparr>offset := 0\<rparr>)"
  using assms by (simp add: SerializingToBuffer_def store_def)

text \<open>
  Claim C9. The first store, of the two bytes of \<open>symbol_count\<close> at offset 0, is not
  preceded by a check against \<open>max_size\<close>, and the first check comes after it. On a
  buffer that has room for the two bytes, every run leaves them at the start of the
  buffer, whatever the budget and whatever the status; and for every budget below 4,
  the budgets 0 and 1 included, the run stops at the first check with \<open>RET_ERROR\<close>, the
  two bytes written and the offset at 2. On a buffer of fewer than 2 bytes the store is
  out of bounds, undefined behaviour, for every budget. So on a buffer of exactly
  \<open>max_size\<close> bytes (and with tables as long as the alphabet size, so that no read is out
  of range) the call is undefined exactly when \<open>max_size < 2\<close>: a budget of 1 byte is not
  rejected before the store.
\<close>

theorem first_store_precedes_every_check:
  "(2 \<le> length (out8 s) \<longrightarrow>
      take 2 (out8 (snd (SerializingToBuffer bs fse_quant table_log max_size s))) =
        le_bytes 2 (to_uint16 (int (q_size fse_quant)))) \<and>
   (2 \<le> length (out8 s) \<and> max_size < 4 \<longrightarrow>
      SerializingToBuffer bs fse_quant table_log max_size s =
        (Some RET_ERROR,
         s\<lparr>out8 := le_bytes 2 (to_uint16 (int (q_size fse_quant))) @ drop 2 (out8 s),
           offset := 2\<rparr>)) \<and>
   (length (out8 s) < 2 \<longrightarrow>
      SerializingToBuffer bs fse_quant table_log max_size s =
        (Some UNDEFINED, s\<lparr>offset := 0\<rparr>)) \<and>
   (length (out8 s) = max_size \<and>
    q_size fse_quant = length (frequency fse_quant) \<and>
    q_size fse_quant = length (centroids fse_quant) \<and>
    nat (curr_chunk_index bs + 1) \<le> length (chunks bs) \<longrightarrow>
      (fst (SerializingToBuffer bs fse_quant table_log max_size s) = Some UNDEFINED)
        = (max_size < 2))"
proof (intro conjI impI)
  assume "2 \<le> length (out8 s)"
  then show "take 2 (out8 (snd (SerializingToBuffer bs fse_quant table_log max_size s))) =
               le_bytes 2 (to_uint16 (int (q_size fse_quant)))"
    by (rule SerializingToBuffer_first_field)
next
  assume "2 \<le> length (out8 s) \<and> max_size < 4"
  then show "SerializingToBuffer bs fse_quant table_log max_size s =
        (Some RET_ERROR,
         s\<lparr>out8 := le_bytes 2 (to_uint16 (int (q_size fse_quant))) @ drop 2 (out8 s),
           offset := 2\<rparr>)"
    by (simp add: SerializingToBuffer_first_check)
next
  assume "length (out8 s) < 2"
  then show "SerializingToBuffer bs fse_quant table_log max_size s =
        (Some UNDEFINED, s\<lparr>offset := 0\<rparr>)"
    by (rule SerializingToBuffer_no_room)
next
  assume a: "length (out8 s) = max_size \<and>
    q_size fse_quant = length (frequency fse_quant) \<and>
    q_size fse_quant = length (centroids fse_quant) \<and>
    nat (curr_chunk_index bs + 1) \<le> length (chunks bs)"
  then have len: "length (out8 s) = max_size"
    and fr: "q_size fse_quant = length (frequency fse_quant)"
    and ce: "q_size fse_quant = length (centroids fse_quant)"
    and ch: "nat (curr_chunk_index bs + 1) \<le> length (chunks bs)"
    by simp_all
  show "(fst (SerializingToBuffer bs fse_quant table_log max_size s) = Some UNDEFINED)
          = (max_size < 2)"
  proof (cases "max_size < 2")
    case True
    from SerializingToBuffer_small_budget [OF len True, of bs fse_quant table_log] True
    show ?thesis by simp
  next
    case False
    then have two: "2 \<le> max_size" by simp
    note c = SerializingToBuffer_cases [OF len two fr ce ch, of table_log]
    have "fst (SerializingToBuffer bs fse_quant table_log max_size s) \<noteq> Some UNDEFINED"
    proof (cases "length (layout bs fse_quant table_log) \<le> max_size")
      case True
      from c(1) [OF True] show ?thesis by simp
    next
      case F: False
      from c(2) [OF F] show ?thesis by simp
    qed
    then show ?thesis using False by simp
  qed
qed

theorem first_store_precedes_every_check_witness:
  "SerializingToBuffer
     \<lparr>chunks = [7, 9], curr_chunk = 258, curr_chunk_index = 0, curr_bit_count = 9\<rparr>
     \<lparr>symbol_table = [], symbol_table_count = 0, centroids = [1, 2, 3],
      frequency = [16, 10, 6], q_size = 3\<rparr> 5 1
     \<lparr>out8 = [255, 255, 255, 255], offset = 0, out_size = 99\<rparr> =
     (Some RET_ERROR, \<lparr>out8 = [3, 0, 255, 255], offset = 2, out_size = 99\<rparr>) \<and>
   SerializingToBuffer
     \<lparr>chunks = [7, 9], curr_chunk = 258, curr_chunk_index = 0, curr_bit_count = 9\<rparr>
     \<lparr>symbol_table = [], symbol_table_count = 0, centroids = [1, 2, 3],
      frequency = [16, 10, 6], q_size = 3\<rparr> 5 1
     \<lparr>out8 = [255], offset = 0, out_size = 99\<rparr> =
     (Some UNDEFINED, \<lparr>out8 = [255], offset = 0, out_size = 99\<rparr>) \<and>
   take 2 (out8 (snd (SerializingToBuffer
     \<lparr>chunks = [7, 9], curr_chunk = 258, curr_chunk_index = 0, curr_bit_count = 9\<rparr>
     \<lparr>symbol_table = [], symbol_table_count = 0, centroids = [1, 2, 3],
      frequency = [16, 10, 6], q_size = 3\<rparr> 5 2
     \<lparr>out8 = [255, 255], offset = 0, out_size = 99\<rparr>))) = [3, 0] \<and>
   fst (SerializingToBuffer
     \<lparr>chunks = [7, 9], curr_chunk = 258, curr_chunk_index = 0, curr_bit_count = 9\<rparr>
     \<lparr>symbol_table = [], symbol_table_count = 0, centroids = [1, 2, 3],
      frequency = [16, 10, 6], q_size = 3\<rparr> 5 2
     \<lparr>out8 = [255, 255], offset = 0, out_size = 99\<rparr>) \<noteq> Some UNDEFINED"
proof -
  let ?bs = "\<lparr>chunks = [7, 9], curr_chunk = 258, curr_chunk_index = 0, curr_bit_count = 9\<rparr>"
  let ?q = "\<lparr>symbol_table = [], symbol_table_count = 0, centroids = [1, 2, 3],
             frequency = [16, 10, 6], q_size = 3\<rparr>"
  have b: "le_bytes 2 (to_uint16 3) = [3, 0]"
    by (simp add: le_bytes_def to_uint16_def numeral_2_eq_2)
  from first_store_precedes_every_check
         [of "\<lparr>out8 = [255, 255, 255, 255], offset = 0, out_size = 99\<rparr>" ?bs ?q 5 1]
  have 1: "SerializingToBuffer ?bs ?q 5 1
             \<lparr>out8 = [255, 255, 255, 255], offset = 0, out_size = 99\<rparr> =
           (Some RET_ERROR, \<lparr>out8 = [3, 0, 255, 255], offset = 2, out_size = 99\<rparr>)"
    by (simp add: b)
  from first_store_precedes_every_check
         [of "\<lparr>out8 = [255], offset = 0, out_size = 99\<rparr>" ?bs ?q 5 1]
  have 2: "SerializingToBuffer ?bs ?q 5 1 \<lparr>out8 = [255], offset = 0, out_size = 99\<rparr> =
           (Some UNDEFINED, \<lparr>out8 = [255], offset = 0, out_size = 99\<rparr>)"
    by simp
  from first_store_precedes_every_check
         [of "\<lparr>out8 = [255, 255], offset = 0, out_size = 99\<rparr>" ?bs ?q 5 2]
  have 3: "take 2 (out8 (snd (SerializingToBuffer ?bs ?q 5 2
             \<lparr>out8 = [255, 255], offset = 0, out_size = 99\<rparr>))) = [3, 0]"
    and 4: "fst (SerializingToBuffer ?bs ?q 5 2
             \<lparr>out8 = [255, 255], offset = 0, out_size = 99\<rparr>) \<noteq> Some UNDEFINED"
    by (simp_all add: b)
  from 1 2 3 4 show ?thesis by (intro conjI)
qed

section \<open>Properties of the encoder loop\<close>










section \<open>Determinism of the pipeline\<close>

lemma uniform_store: "uniform (store bs)"
proof -
  have "fst (store bs s1) = fst (store bs s2) \<and> agree (snd (store bs s1)) (snd (store bs s2))"
    if a: "agree s1 s2" for s1 s2
  proof (cases "offset s1 + length bs > length (out8 s1)")
    case True
    then show ?thesis using a by (auto simp: store_def agree_def)
  next
    case False
    then have f2: "\<not> offset s2 + length bs > length (out8 s2)" using a by (simp add: agree_def)
    have l1: "offset s1 \<le> length (out8 s1)" using False by simp
    have l2: "offset s2 \<le> length (out8 s2)" using f2 by simp
    have t: "take (offset s1 + length bs)
               (take (offset s1) (out8 s1) @ bs @ drop (offset s1 + length bs) (out8 s1)) =
             take (offset s1) (out8 s1) @ bs" for s1 :: ser
      by (cases "offset s1 \<le> length (out8 s1)") (simp_all add: min_def)
    show ?thesis
      using a False f2 t [of s1] t [of s2] by (auto simp: store_def agree_def)
  qed
  then show ?thesis by (simp add: uniform_def)
qed

lemma uniform_checked_store: "uniform (checked_store max_size n v)"
proof -
  have "fst (checked_store max_size n v s1) = fst (checked_store max_size n v s2) \<and>
        agree (snd (checked_store max_size n v s1)) (snd (checked_store max_size n v s2))"
    if a: "agree s1 s2" for s1 s2
  proof (cases "offset s1 + n > max_size")
    case True
    then show ?thesis using a by (auto simp: checked_store_def agree_def)
  next
    case False
    show ?thesis
    proof (cases v)
      case None
      then show ?thesis using a False by (auto simp: checked_store_def agree_def)
    next
      case (Some bs)
      from uniform_store [of bs] a
      have "fst (store bs s1) = fst (store bs s2) \<and> agree (snd (store bs s1)) (snd (store bs s2))"
        by (simp add: uniform_def)
      then show ?thesis using a False Some by (auto simp: checked_store_def agree_def)
    qed
  qed
  then show ?thesis by (simp add: uniform_def)
qed

lemma uniform_step:
  assumes "uniform f" and "agree s1 s2"
  obtains st t1 t2 where "f s1 = (st, t1)" "f s2 = (st, t2)" "agree t1 t2"
proof -
  from assms have "fst (f s1) = fst (f s2)" "agree (snd (f s1)) (snd (f s2))"
    by (simp_all add: uniform_def)
  then show ?thesis
    using that [of "fst (f s1)" "snd (f s1)" "snd (f s2)"]
    by (cases "f s1"; cases "f s2") auto
qed

lemma uniform_store_all: "uniform (store_all max_size n vs)"
proof -
  have "fst (store_all max_size n vs s1) = fst (store_all max_size n vs s2) \<and>
        agree (snd (store_all max_size n vs s1)) (snd (store_all max_size n vs s2))"
    if "agree s1 s2" for s1 s2
    using that
  proof (induction vs arbitrary: s1 s2)
    case Nil
    then show ?case by simp
  next
    case (Cons v vs)
    from uniform_step [OF uniform_checked_store Cons.prems, of max_size n v]
    obtain st t1 t2 where
      c: "checked_store max_size n v s1 = (st, t1)" "checked_store max_size n v s2 = (st, t2)"
      "agree t1 t2" by blast
    show ?case
    proof (cases st)
      case None
      then show ?thesis using c Cons.IH [OF c(3)] by simp
    next
      case (Some e)
      then show ?thesis using c by simp
    qed
  qed
  then show ?thesis by (simp add: uniform_def)
qed

lemma uniform_in_order: "\<forall>f \<in> set fs. uniform f \<Longrightarrow> uniform (in_order fs)"
proof -
  assume u: "\<forall>f \<in> set fs. uniform f"
  have "fst (in_order fs s1) = fst (in_order fs s2) \<and>
        agree (snd (in_order fs s1)) (snd (in_order fs s2))"
    if "agree s1 s2" for s1 s2
    using that u
  proof (induction fs arbitrary: s1 s2)
    case Nil
    then show ?case by simp
  next
    case (Cons f fs)
    have uf: "uniform f" using Cons.prems(2) by simp
    from uniform_step [OF uf Cons.prems(1)]
    obtain st t1 t2 where
      c: "f s1 = (st, t1)" "f s2 = (st, t2)" "agree t1 t2" by blast
    show ?case
    proof (cases st)
      case None
      then show ?thesis using c Cons.IH [OF c(3)] Cons.prems(2) by simp
    next
      case (Some e)
      then show ?thesis using c by simp
    qed
  qed
  then show ?thesis by (simp add: uniform_def)
qed

lemma uniform_set_out_size: "uniform (set_out_size max_size)"
  by (auto simp: uniform_def set_out_size_def agree_def)

lemma uniform_pad: "uniform (pad max_size)"
proof -
  have "\<forall>s2. agree s1 s2 \<longrightarrow>
          fst (pad max_size s1) = fst (pad max_size s2) \<and>
          agree (snd (pad max_size s1)) (snd (pad max_size s2))" for s1
  proof (induction max_size s1 rule: pad.induct)
    case (1 max_size s1)
    show ?case
    proof (intro allI impI)
      fix s2 assume a: "agree s1 s2"
      then have o: "offset s2 = offset s1" by (simp add: agree_def)
      show "fst (pad max_size s1) = fst (pad max_size s2) \<and>
            agree (snd (pad max_size s1)) (snd (pad max_size s2))"
      proof (cases "offset s1 mod kAlignSize \<noteq> 0")
        case False
        then show ?thesis using a o
          by (subst (1 2) pad.simps, subst (1 2) pad.simps) simp
      next
        case True
        show ?thesis
        proof (cases "offset s1 + 2 > max_size")
          case T: True
          then show ?thesis using a o True
            by (subst (1 2) pad.simps, subst (1 2) pad.simps) simp
        next
          case False
          from uniform_step [OF uniform_store a, of "le_bytes 2 0"]
          obtain st t1 t2 where
            c: "store (le_bytes 2 0) s1 = (st, t1)" "store (le_bytes 2 0) s2 = (st, t2)"
            "agree t1 t2" by blast
          have p1: "pad max_size s1 = (case st of None \<Rightarrow> pad max_size t1 | Some e \<Rightarrow> (Some e, t1))"
            using True False c(1) by (subst pad.simps) (simp split: option.splits)
          have p2: "pad max_size s2 = (case st of None \<Rightarrow> pad max_size t2 | Some e \<Rightarrow> (Some e, t2))"
            using True False c(2) o by (subst pad.simps) (simp split: option.splits)
          show ?thesis
          proof (cases st)
            case None
            from "1.IH" [OF True False c(1) [symmetric] None] c(3)
            show ?thesis by (simp add: p1 p2 None)
          next
            case (Some e)
            then show ?thesis using c(3) by (simp add: p1 p2)
          qed
        qed
      qed
    qed
  qed
  then show ?thesis by (simp add: uniform_def)
qed


lemma in_order_agree:
  assumes "\<forall>f \<in> set fs. uniform f" and "agree a b"
  shows "fst (in_order fs a) = fst (in_order fs b) \<and>
         agree (snd (in_order fs a)) (snd (in_order fs b))"
proof -
  from uniform_in_order [OF assms(1)] have "uniform (in_order fs)" .
  then show ?thesis using assms(2) unfolding uniform_def by blast
qed

lemma SerializingToBuffer_uniform:
  assumes "agree (s1\<lparr>offset := 0\<rparr>) (s2\<lparr>offset := 0\<rparr>)"
  shows "fst (SerializingToBuffer bs fse_quant table_log max_size s1) =
           fst (SerializingToBuffer bs fse_quant table_log max_size s2) \<and>
         agree (snd (SerializingToBuffer bs fse_quant table_log max_size s1))
               (snd (SerializingToBuffer bs fse_quant table_log max_size s2))"
  unfolding SerializingToBuffer_def
proof (rule in_order_agree)
  show "agree (s1\<lparr>offset := 0\<rparr>) (s2\<lparr>offset := 0\<rparr>)" by (rule assms)
qed (simp add: uniform_store uniform_checked_store uniform_store_all uniform_pad
       uniform_set_out_size)

lemma take_le_eq:
  assumes "k \<le> n" and "take n xs = take n ys"
  shows "take k xs = take k ys"
proof -
  have "take k xs = take k (take n xs)" using assms(1) by (simp add: min_def)
  also have "\<dots> = take k (take n ys)" using assms(2) by simp
  also have "\<dots> = take k ys" using assms(1) by (simp add: min_def)
  finally show ?thesis .
qed

lemma SerializingToTensor_independent:
  "SerializingToTensor bs fse_quant table_log max_size uninit1 =
   SerializingToTensor bs fse_quant table_log max_size uninit2"
proof -
  let ?s1 = "\<lparr>out8 = map uninit1 [0..<max_size], offset = 0, out_size = 0\<rparr>"
  let ?s2 = "\<lparr>out8 = map uninit2 [0..<max_size], offset = 0, out_size = 0\<rparr>"
  have "agree (?s1\<lparr>offset := 0\<rparr>) (?s2\<lparr>offset := 0\<rparr>)" by (simp add: agree_def)
  from SerializingToBuffer_uniform [OF this, of bs fse_quant table_log max_size]
  obtain st t1 t2 where
    r: "SerializingToBuffer bs fse_quant table_log max_size ?s1 = (st, t1)"
    "SerializingToBuffer bs fse_quant table_log max_size ?s2 = (st, t2)"
    and a: "agree t1 t2"
    by (cases "SerializingToBuffer bs fse_quant table_log max_size ?s1";
        cases "SerializingToBuffer bs fse_quant table_log max_size ?s2") auto
  have k: "out_size t1 \<le> offset t1" "out_size t2 = out_size t1"
    "take (offset t1) (out8 t1) = take (offset t1) (out8 t2)"
    using a by (auto simp: agree_def)
  have "take (out_size t1) (out8 t1) = take (out_size t1) (out8 t2)"
    by (rule take_le_eq [OF k(1) k(3)])
  then show ?thesis
    by (simp add: SerializingToTensor_def r k(2) split: option.splits)
qed

text \<open>
  Claim C8. The result of \<open>Compress\<close>, status and serialized bytes, is a function of its
  inputs: the squeezed symbols, histogram and centroids, the size of the tensor (the
  budget) and the operations of the bit stream. The one thing a run reads that is not
  an input, the content that the freshly allocated output buffer happens to have, does
  not influence it: every byte of the payload has been stored by the serializer. The
  same holds for \<open>SerializingToTensor\<close> on its own, for every stream, table, \<open>table_log\<close>
  and budget. (Two runs with the status \<open>UNDEFINED\<close> are runs with undefined behaviour;
  their equality in the model says nothing more about them.)
\<close>

theorem Compress_deterministic:
  "Compress ops rescale MAX_TABLE_LOG MAX_SYMS squeezed tensor_size uninit1 =
     Compress ops rescale MAX_TABLE_LOG MAX_SYMS squeezed tensor_size uninit2 \<and>
   SerializingToTensor bs fse_quant table_log max_size uninit1 =
     SerializingToTensor bs fse_quant table_log max_size uninit2"
proof -
  have "Compress ops rescale MAX_TABLE_LOG MAX_SYMS squeezed tensor_size uninit1 =
        Compress ops rescale MAX_TABLE_LOG MAX_SYMS squeezed tensor_size uninit2"
    unfolding Compress_def
    by (simp add: SerializingToTensor_independent [of _ _ _ _ uninit1 uninit2]
             split: sum.splits prod.splits)
  then show ?thesis
    using SerializingToTensor_independent [of bs fse_quant table_log max_size uninit1 uninit2]
    by simp
qed

lemma Compress_example:
  "Compress example_ops exact_rescale 16 65534
     (Inr \<lparr>symbol_table = [0, 1, 2, 2, 0, 2], symbol_table_count = 6, centroids = [1, 2, 3],
           frequency = [2, 1, 3], q_size = 3\<rparr>) 64 (\<lambda>i. 255) =
   Inr [3, 0, 5, 0, 1, 0, 0, 0, 11, 0, 0, 0, 5, 0, 0, 0, 16, 0, 0, 0, 0, 0, 0, 0,
        1, 0, 0, 0, 2, 0, 0, 0, 3, 0, 0, 0, 0, 0, 0, 0, 0, 0, 0, 0, 0, 0, 96, 119, 12]"
  by code_simp

theorem Compress_deterministic_witness:
  "Compress example_ops exact_rescale 16 65534
     (Inr \<lparr>symbol_table = [0, 1, 2, 2, 0, 2], symbol_table_count = 6, centroids = [1, 2, 3],
           frequency = [2, 1, 3], q_size = 3\<rparr>) 64 (\<lambda>i. 0) =
   Inr [3, 0, 5, 0, 1, 0, 0, 0, 11, 0, 0, 0, 5, 0, 0, 0, 16, 0, 0, 0, 0, 0, 0, 0,
        1, 0, 0, 0, 2, 0, 0, 0, 3, 0, 0, 0, 0, 0, 0, 0, 0, 0, 0, 0, 0, 0, 96, 119, 12]"
  using Compress_deterministic
    [of example_ops exact_rescale 16 65534
        "Inr \<lparr>symbol_table = [0, 1, 2, 2, 0, 2], symbol_table_count = 6,
              centroids = [1, 2, 3], frequency = [2, 1, 3], q_size = 3\<rparr>" 64
        "\<lambda>i. 0" "\<lambda>i. 255", THEN conjunct1]
  by (simp only: Compress_example)

end
